theory Spec2Isabelle
  imports Complex_Main
begin

section \<open>Python values used by the pipeline\<close>

text \<open>
  Python floats are modelled as real numbers: the claims only compare them, subtract
  timestamps and round them to a fixed number of decimals (NaN and infinities are not
  modelled). Python strings are lists of characters; a \<^typ>\<open>char\<close> stands for a code point
  below 256.
\<close>

definition isspace :: "char \<Rightarrow> bool" where
  \<comment> \<open>\<^verbatim>\<open>str.isspace\<close> on one code point below 256\<close>
  "isspace c = ((of_char c :: nat) \<in> {9, 10, 11, 12, 13, 28, 29, 30, 31, 32, 133, 160})"

definition strip :: "string \<Rightarrow> string" where
  \<comment> \<open>\<^verbatim>\<open>str.strip()\<close>: leading and trailing whitespace removed\<close>
  "strip s = rev (dropWhile isspace (rev (dropWhile isspace s)))"

definition lower_char :: "char \<Rightarrow> char" where
  "lower_char c =
     (let n = (of_char c :: nat)
      in if (65 \<le> n \<and> n \<le> 90) \<or> (192 \<le> n \<and> n \<le> 222 \<and> n \<noteq> 215)
         then char_of (n + 32) else c)"

definition lower :: "string \<Rightarrow> string" where
  \<comment> \<open>\<^verbatim>\<open>str.lower()\<close>\<close>
  "lower s = map lower_char s"

definition py_int :: "real \<Rightarrow> int" where
  \<comment> \<open>\<^verbatim>\<open>int(x)\<close> on a float truncates towards zero\<close>
  "py_int x = (if 0 \<le> x then \<lfloor>x\<rfloor> else \<lceil>x\<rceil>)"

definition round_half_even :: "real \<Rightarrow> int" where
  \<comment> \<open>\<^verbatim>\<open>round(x)\<close>: nearest integer, a tie goes to the even neighbour\<close>
  "round_half_even x =
     (let f = \<lfloor>x\<rfloor>; r = x - of_int f
      in if r < 1 / 2 then f else if 1 / 2 < r then f + 1 else if even f then f else f + 1)"

definition py_round :: "real \<Rightarrow> nat \<Rightarrow> real" where
  \<comment> \<open>\<^verbatim>\<open>round(x, ndigits)\<close>\<close>
  "py_round x ndigits = of_int (round_half_even (x * 10 ^ ndigits)) / 10 ^ ndigits"


section \<open>Text similarity: \<^verbatim>\<open>difflib.SequenceMatcher(None, a, b).ratio()\<close>\<close>

text \<open>
  The standard library's matcher with no junk predicate and \<^verbatim>\<open>autojunk\<close> on. \<open>b2j\<close> is
  \<^verbatim>\<open>__chain_b\<close>: the positions of an element in \<open>b\<close>, none for an element that is popular
  in a long \<open>b\<close>. The dictionaries \<^verbatim>\<open>j2len\<close> and \<^verbatim>\<open>newj2len\<close> are only read through
  \<^verbatim>\<open>get(j-1, 0)\<close>, so they are functions with default 0. \<open>scan_row\<close> is the loop over \<open>j\<close>,
  \<open>scan_rows\<close> the loop over \<open>i\<close>, \<open>extend_left\<close> and \<open>extend_right\<close> the two loops that
  extend the best block (the two loops over junk elements never run, there being no
  junk). \<open>count_matches\<close> adds the sizes of the blocks that \<^verbatim>\<open>get_matching_blocks\<close>
  collects from its queue.
\<close>

definition b2j :: "string \<Rightarrow> char \<Rightarrow> nat list" where
  "b2j b elt =
     (let indices = filter (\<lambda>j. b ! j = elt) [0..<length b]
      in if 200 \<le> length b \<and> length b div 100 + 1 < length indices then [] else indices)"

fun scan_row ::
  "nat \<Rightarrow> nat \<Rightarrow> nat \<Rightarrow> (nat \<Rightarrow> nat) \<Rightarrow> nat list \<Rightarrow> (nat \<Rightarrow> nat) \<times> nat \<times> nat \<times> nat
     \<Rightarrow> (nat \<Rightarrow> nat) \<times> nat \<times> nat \<times> nat" where
  "scan_row i blo bhi j2len [] acc = acc"
| "scan_row i blo bhi j2len (j # js) (newj2len, besti, bestj, bestsize) =
     (if j < blo then scan_row i blo bhi j2len js (newj2len, besti, bestj, bestsize)
      else if bhi \<le> j then (newj2len, besti, bestj, bestsize)
      else
        let k = (if j = 0 then 0 else j2len (j - 1)) + 1
        in if bestsize < k
           then scan_row i blo bhi j2len js (newj2len(j := k), i + 1 - k, j + 1 - k, k)
           else scan_row i blo bhi j2len js (newj2len(j := k), besti, bestj, bestsize))"

function scan_rows ::
  "string \<Rightarrow> string \<Rightarrow> nat \<Rightarrow> nat \<Rightarrow> nat \<Rightarrow> nat \<Rightarrow> (nat \<Rightarrow> nat) \<times> nat \<times> nat \<times> nat
     \<Rightarrow> nat \<times> nat \<times> nat" where
  "scan_rows a b blo bhi i ahi (j2len, besti, bestj, bestsize) =
     (if i < ahi
      then scan_rows a b blo bhi (i + 1) ahi
             (scan_row i blo bhi j2len (b2j b (a ! i)) (\<lambda>_. 0, besti, bestj, bestsize))
      else (besti, bestj, bestsize))"
  by pat_completeness auto
termination
  by (relation "measure (\<lambda>(a, b, blo, bhi, i, ahi, s). ahi - i)") auto

function extend_left :: "string \<Rightarrow> string \<Rightarrow> nat \<Rightarrow> nat \<Rightarrow> nat \<times> nat \<times> nat \<Rightarrow> nat \<times> nat \<times> nat" where
  "extend_left a b alo blo (besti, bestj, bestsize) =
     (if alo < besti \<and> blo < bestj \<and> a ! (besti - 1) = b ! (bestj - 1)
      then extend_left a b alo blo (besti - 1, bestj - 1, bestsize + 1)
      else (besti, bestj, bestsize))"
  by pat_completeness auto
termination
  by (relation "measure (\<lambda>(a, b, alo, blo, besti, bestj, bestsize). besti)") auto

function extend_right :: "string \<Rightarrow> string \<Rightarrow> nat \<Rightarrow> nat \<Rightarrow> nat \<times> nat \<times> nat \<Rightarrow> nat \<times> nat \<times> nat" where
  "extend_right a b ahi bhi (besti, bestj, bestsize) =
     (if besti + bestsize < ahi \<and> bestj + bestsize < bhi
         \<and> a ! (besti + bestsize) = b ! (bestj + bestsize)
      then extend_right a b ahi bhi (besti, bestj, bestsize + 1)
      else (besti, bestj, bestsize))"
  by pat_completeness auto
termination
  by (relation "measure (\<lambda>(a, b, ahi, bhi, besti, bestj, bestsize). ahi - (besti + bestsize))") auto

definition find_longest_match :: "string \<Rightarrow> string \<Rightarrow> nat \<Rightarrow> nat \<Rightarrow> nat \<Rightarrow> nat \<Rightarrow> nat \<times> nat \<times> nat" where
  "find_longest_match a b alo ahi blo bhi =
     extend_right a b ahi bhi
       (extend_left a b alo blo
          (scan_rows a b blo bhi alo ahi (\<lambda>_. 0, alo, blo, 0)))"

declare scan_rows.simps [simp del] extend_left.simps [simp del] extend_right.simps [simp del]

lemma scan_row_bounds:
  "(\<forall>j. j2len j \<le> i - alo) \<Longrightarrow> alo \<le> i \<Longrightarrow>
   (\<forall>j. newj2len j \<le> i + 1 - alo) \<Longrightarrow> alo \<le> besti \<Longrightarrow> besti + bestsize \<le> i + 1 \<Longrightarrow>
   scan_row i blo bhi j2len js (newj2len, besti, bestj, bestsize) = (n', bi', bj', bs') \<Longrightarrow>
   (\<forall>j. n' j \<le> i + 1 - alo) \<and> alo \<le> bi' \<and> bi' + bs' \<le> i + 1"
proof (induction js arbitrary: newj2len besti bestj bestsize)
  case Nil
  then show ?case by simp
next
  case (Cons j js)
  define k where "k = (if j = 0 then 0 else j2len (j - 1)) + 1"
  have "(if j = 0 then 0 else j2len (j - 1)) \<le> i - alo"
    using Cons.prems(1) by simp
  then have k: "k \<le> i + 1 - alo" "1 \<le> k"
    using Cons.prems(2) by (simp_all add: k_def)
  show ?case
  proof (cases "j < blo")
    case True
    with Cons show ?thesis by simp
  next
    case nb: False
    show ?thesis
    proof (cases "bhi \<le> j")
      case True
      with nb Cons.prems show ?thesis by simp
    next
      case False
      have upd: "\<forall>j'. (newj2len(j := k)) j' \<le> i + 1 - alo"
        using k Cons.prems(3) by simp
      show ?thesis
      proof (cases "bestsize < k")
        case True
        have eq: "scan_row i blo bhi j2len js (newj2len(j := k), i + 1 - k, j + 1 - k, k)
            = (n', bi', bj', bs')"
          using Cons.prems(6) nb False True by (simp add: Let_def k_def)
        have "alo \<le> i + 1 - k" "i + 1 - k + k \<le> i + 1"
          using k Cons.prems(2) by linarith+
        from Cons.IH [OF Cons.prems(1,2) upd this eq] show ?thesis .
      next
        case nt: False
        have eq: "scan_row i blo bhi j2len js (newj2len(j := k), besti, bestj, bestsize)
            = (n', bi', bj', bs')"
          using Cons.prems(6) nb False nt by (simp add: Let_def k_def)
        from Cons.IH [OF Cons.prems(1,2) upd Cons.prems(4,5) eq] show ?thesis .
      qed
    qed
  qed
qed

lemma scan_rows_bounds:
  "n = ahi - i \<Longrightarrow> (\<forall>j. j2len j \<le> i - alo) \<Longrightarrow> alo \<le> i \<Longrightarrow> i \<le> ahi \<Longrightarrow>
   alo \<le> besti \<Longrightarrow> besti + bestsize \<le> i \<Longrightarrow>
   scan_rows a b blo bhi i ahi (j2len, besti, bestj, bestsize) = (bi', bj', bs') \<Longrightarrow>
   alo \<le> bi' \<and> bi' + bs' \<le> ahi"
proof (induction n arbitrary: i j2len besti bestj bestsize)
  case 0
  then show ?case by (simp add: scan_rows.simps)
next
  case (Suc n)
  have lt: "i < ahi" using Suc.prems(1) by simp
  obtain n' bi bj bs where row:
    "scan_row i blo bhi j2len (b2j b (a ! i)) (\<lambda>_. 0, besti, bestj, bestsize) = (n', bi, bj, bs)"
    by (metis prod_cases4)
  have "besti + bestsize \<le> i + 1" using Suc.prems(6) by simp
  from scan_row_bounds [OF Suc.prems(2,3) _ Suc.prems(5) this row]
  have rb: "(\<forall>j. n' j \<le> i + 1 - alo) \<and> alo \<le> bi \<and> bi + bs \<le> i + 1"
    by simp
  have eq: "scan_rows a b blo bhi (i + 1) ahi (n', bi, bj, bs) = (bi', bj', bs')"
    using Suc.prems(7) lt row by (simp add: scan_rows.simps)
  show ?case
    by (rule Suc.IH [OF _ _ _ _ _ _ eq]) (use rb lt Suc.prems in auto)
qed

lemma extend_left_bounds:
  "alo \<le> besti \<Longrightarrow> besti + bestsize \<le> ahi \<Longrightarrow>
   extend_left a b alo blo (besti, bestj, bestsize) = (bi', bj', bs') \<Longrightarrow>
   alo \<le> bi' \<and> bi' + bs' \<le> ahi \<and> bestsize \<le> bs'"
proof (induction besti arbitrary: bestj bestsize)
  case 0
  then show ?case by (simp add: extend_left.simps)
next
  case (Suc besti)
  show ?case
  proof (cases "alo < Suc besti \<and> blo < bestj \<and> a ! (Suc besti - 1) = b ! (bestj - 1)")
    case True
    then have eq: "extend_left a b alo blo (besti, bestj - 1, bestsize + 1) = (bi', bj', bs')"
      using Suc.prems(3) by (subst (asm) extend_left.simps) simp
    have "alo \<le> bi' \<and> bi' + bs' \<le> ahi \<and> bestsize + 1 \<le> bs'"
      by (rule Suc.IH [OF _ _ eq]) (use True Suc.prems in auto)
    then show ?thesis by simp
  next
    case False
    then show ?thesis
      using Suc.prems by (subst (asm) extend_left.simps) auto
  qed
qed

lemma extend_right_bounds:
  "n = ahi - (besti + bestsize) \<Longrightarrow> alo \<le> besti \<Longrightarrow> besti + bestsize \<le> ahi \<Longrightarrow>
   extend_right a b ahi bhi (besti, bestj, bestsize) = (bi', bj', bs') \<Longrightarrow>
   alo \<le> bi' \<and> bi' + bs' \<le> ahi"
proof (induction n arbitrary: bestsize)
  case 0
  then show ?case by (simp add: extend_right.simps)
next
  case (Suc n)
  show ?case
  proof (cases "besti + bestsize < ahi \<and> bestj + bestsize < bhi
         \<and> a ! (besti + bestsize) = b ! (bestj + bestsize)")
    case True
    then have eq: "extend_right a b ahi bhi (besti, bestj, bestsize + 1) = (bi', bj', bs')"
      using Suc.prems(4) by (subst (asm) extend_right.simps) simp
    show ?thesis
      by (rule Suc.IH [OF _ _ _ eq]) (use True Suc.prems in auto)
  next
    case False
    then show ?thesis
      using Suc.prems by (subst (asm) extend_right.simps) auto
  qed
qed

lemma find_longest_match_bounds:
  assumes "find_longest_match a b alo ahi blo bhi = (i, j, k)" and "alo \<le> ahi"
  shows "alo \<le> i \<and> i + k \<le> ahi"
proof -
  obtain i1 j1 k1 where s1: "scan_rows a b blo bhi alo ahi (\<lambda>_. 0, alo, blo, 0) = (i1, j1, k1)"
    by (metis prod_cases3)
  obtain i2 j2 k2 where s2: "extend_left a b alo blo (i1, j1, k1) = (i2, j2, k2)"
    by (metis prod_cases3)
  have s3: "extend_right a b ahi bhi (i2, j2, k2) = (i, j, k)"
    using assms(1) by (simp add: find_longest_match_def s1 s2)
  have b1: "alo \<le> i1 \<and> i1 + k1 \<le> ahi"
    by (rule scan_rows_bounds [OF refl _ _ _ _ _ s1]) (use assms(2) in auto)
  have b2: "alo \<le> i2 \<and> i2 + k2 \<le> ahi \<and> k1 \<le> k2"
    by (rule extend_left_bounds [OF _ _ s2]) (use b1 in auto)
  show ?thesis
    by (rule extend_right_bounds [OF refl _ _ s3]) (use b2 in auto)
qed

lemma find_longest_match_nonempty:
  assumes "find_longest_match a b alo ahi blo bhi = (i, j, k)" and "k \<noteq> 0"
  shows "alo \<le> i \<and> i + k \<le> ahi"
proof (cases "alo \<le> ahi")
  case True
  with assms(1) show ?thesis by (rule find_longest_match_bounds)
next
  case False
  then have "scan_rows a b blo bhi alo ahi (\<lambda>_. 0, alo, blo, 0) = (alo, blo, 0)"
    by (simp add: scan_rows.simps)
  with False assms(1) have "k = 0"
    by (simp add: find_longest_match_def extend_left.simps extend_right.simps)
  with assms(2) show ?thesis by simp
qed

function count_matches :: "string \<Rightarrow> string \<Rightarrow> nat \<Rightarrow> nat \<Rightarrow> nat \<Rightarrow> nat \<Rightarrow> nat" where
  "count_matches a b alo ahi blo bhi =
     (case find_longest_match a b alo ahi blo bhi of
        (i, j, k) \<Rightarrow>
          if k = 0 then 0
          else k + (if alo < i \<and> blo < j then count_matches a b alo i blo j else 0)
                 + (if i + k < ahi \<and> j + k < bhi then count_matches a b (i + k) ahi (j + k) bhi else 0))"
  by pat_completeness auto
termination
proof (relation "measure (\<lambda>(a, b, alo, ahi, blo, bhi). ahi - alo)", goal_cases)
  case 1
  show ?case by simp
next
  case (2 a b alo ahi blo bhi i y j k)
  then have "find_longest_match a b alo ahi blo bhi = (i, j, k)" "k \<noteq> 0"
    by simp_all
  from find_longest_match_nonempty [OF this] 2 have "i - alo < ahi - alo"
    by linarith
  then show ?case by simp
next
  case (3 a b alo ahi blo bhi i y j k)
  then have "find_longest_match a b alo ahi blo bhi = (i, j, k)" "k \<noteq> 0"
    by simp_all
  from find_longest_match_nonempty [OF this] 3 have "ahi - (i + k) < ahi - alo"
    by linarith
  then show ?case by simp
qed

declare count_matches.simps [simp del]

definition SequenceMatcher_ratio :: "string \<Rightarrow> string \<Rightarrow> real" where
  \<comment> \<open>\<^verbatim>\<open>ratio\<close> with \<^verbatim>\<open>_calculate_ratio\<close>\<close>
  "SequenceMatcher_ratio a b =
     (let matches = count_matches a b 0 (length a) 0 (length b);
          len = length a + length b
      in if len \<noteq> 0 then 2 * real matches / real len else 1)"


section \<open>The detection store: \<^verbatim>\<open>io/writer.py\<close>, class \<^verbatim>\<open>JsonWriter\<close>\<close>

record bbox =
  x1 :: int
  y1 :: int
  x2 :: int
  y2 :: int
  width :: int
  height :: int

record detection =
  timestamp :: real
  bbox :: bbox
  "text" :: string
  confidence :: real
  text_length :: nat
  detection_id :: nat

text \<open>
  Of the \<^verbatim>\<open>metadata\<close> dictionary only \<^verbatim>\<open>total_detections\<close> is kept; the creation time and
  the free-form \<^verbatim>\<open>processing_info\<close> play no part in the operations below.
\<close>

record JsonWriter =
  output_path :: string
  data :: "detection list"
  total_detections :: int

definition JsonWriter_init :: "string \<Rightarrow> JsonWriter" where
  "JsonWriter_init path = \<lparr>output_path = path, data = [], total_detections = 0\<rparr>"

definition add :: "JsonWriter \<Rightarrow> real \<Rightarrow> real \<times> real \<times> real \<times> real \<Rightarrow> string \<Rightarrow> real \<Rightarrow> JsonWriter" where
  "add self ts box txt conf =
     (case box of (bx1, by1, bx2, by2) \<Rightarrow>
        let detection =
              \<lparr>timestamp = py_round ts 3,
               bbox = \<lparr>x1 = py_int bx1, y1 = py_int by1, x2 = py_int bx2, y2 = py_int by2,
                       width = py_int (bx2 - bx1), height = py_int (by2 - by1)\<rparr>,
               text = strip txt,
               confidence = py_round conf 4,
               text_length = length (strip txt),
               detection_id = length (data self) + 1\<rparr>
        in self\<lparr>data := data self @ [detection],
                total_detections := total_detections self + 1\<rparr>)"

definition filter_by_confidence :: "JsonWriter \<Rightarrow> real \<Rightarrow> JsonWriter" where
  "filter_by_confidence self min_confidence =
     (let original_count = int (length (data self));
          kept = filter (\<lambda>d. min_confidence \<le> confidence d) (data self);
          filtered_count = original_count - int (length kept)
      in if 0 < filtered_count
         then self\<lparr>data := kept, total_detections := int (length kept)\<rparr>
         else self\<lparr>data := kept\<rparr>)"

subsection \<open>\<^verbatim>\<open>remove_duplicates\<close>\<close>

text \<open>
  The similarity measure is the parameter \<open>ratio\<close> of the functions below, so that what is
  proved of them holds for every measure; the code passes
  \<^verbatim>\<open>SequenceMatcher(None, a, b).ratio()\<close>, which is \<^const>\<open>SequenceMatcher_ratio\<close>. The inner
  \<^verbatim>\<open>for existing in filtered_data\<close> loop is \<open>scan_existing\<close>: its fourth list argument is
  the part of \<^verbatim>\<open>filtered_data\<close> still to be visited, its last argument is
  \<^verbatim>\<open>filtered_data\<close> itself. It returns the flag \<^verbatim>\<open>is_duplicate\<close> and the list.
  \<^verbatim>\<open>list.remove\<close> deletes the first element equal to its argument, which is
  \<^const>\<open>remove1\<close>.
\<close>

fun scan_existing ::
  "(string \<Rightarrow> string \<Rightarrow> real) \<Rightarrow> real \<Rightarrow> real \<Rightarrow> detection \<Rightarrow> detection list \<Rightarrow> detection list
     \<Rightarrow> bool \<times> detection list" where
  "scan_existing ratio tt st current [] filtered_data = (False, filtered_data)"
| "scan_existing ratio tt st current (existing # rest) filtered_data =
     (if tt < \<bar>timestamp current - timestamp existing\<bar>
      then scan_existing ratio tt st current rest filtered_data
      else if st \<le> ratio (lower (text current)) (lower (text existing))
      then (True,
            if confidence existing < confidence current
            then remove1 existing filtered_data @ [current]
            else filtered_data)
      else scan_existing ratio tt st current rest filtered_data)"

definition dedup_step ::
  "(string \<Rightarrow> string \<Rightarrow> real) \<Rightarrow> real \<Rightarrow> real \<Rightarrow> detection \<Rightarrow> detection list \<Rightarrow> detection list" where
  \<comment> \<open>one round of the outer loop\<close>
  "dedup_step ratio tt st current filtered_data =
     (case scan_existing ratio tt st current filtered_data filtered_data of
        (is_duplicate, filtered_data') \<Rightarrow>
          if \<not> is_duplicate then filtered_data' @ [current] else filtered_data')"

fun dedup_loop ::
  "(string \<Rightarrow> string \<Rightarrow> real) \<Rightarrow> real \<Rightarrow> real \<Rightarrow> detection list \<Rightarrow> detection list \<Rightarrow> detection list" where
  "dedup_loop ratio tt st [] filtered_data = filtered_data"
| "dedup_loop ratio tt st (current # rest) filtered_data =
     dedup_loop ratio tt st rest (dedup_step ratio tt st current filtered_data)"

definition remove_duplicates ::
  "(string \<Rightarrow> string \<Rightarrow> real) \<Rightarrow> JsonWriter \<Rightarrow> real \<Rightarrow> real \<Rightarrow> JsonWriter" where
  "remove_duplicates ratio self time_threshold similarity_threshold =
     (if length (data self) \<le> 1 then self
      else
        let filtered_data = dedup_loop ratio time_threshold similarity_threshold (data self) [];
            removed_count = int (length (data self)) - int (length filtered_data)
        in if 0 < removed_count
           then self\<lparr>data := filtered_data, total_detections := int (length filtered_data)\<rparr>
           else self\<lparr>data := filtered_data\<rparr>)"

definition count_ok :: "JsonWriter \<Rightarrow> bool" where
  \<comment> \<open>\<^verbatim>\<open>metadata["total_detections"]\<close> is the number of detections held\<close>
  "count_ok s = (total_detections s = int (length (data s)))"

definition duplicate_of ::
  "(string \<Rightarrow> string \<Rightarrow> real) \<Rightarrow> real \<Rightarrow> real \<Rightarrow> detection \<Rightarrow> detection \<Rightarrow> bool" where
  \<comment> \<open>the candidate lies within the time threshold of an accepted entry and their
      case-insensitive similarity reaches the similarity threshold\<close>
  "duplicate_of ratio tt st current existing =
     (\<bar>timestamp current - timestamp existing\<bar> \<le> tt \<and>
      st \<le> ratio (lower (text current)) (lower (text existing)))"

definition no_later_duplicate ::
  "(string \<Rightarrow> string \<Rightarrow> real) \<Rightarrow> real \<Rightarrow> real \<Rightarrow> detection list \<Rightarrow> bool" where
  \<comment> \<open>no detection of the list duplicates one that stands before it\<close>
  "no_later_duplicate ratio tt st ds =
     (\<forall>pre x post. ds = pre @ x # post \<longrightarrow> (\<forall>e \<in> set pre. \<not> duplicate_of ratio tt st x e))"

text \<open>
  The states a store can be in: \<^verbatim>\<open>self.data\<close> is written by the constructor, \<^verbatim>\<open>add\<close>,
  \<^verbatim>\<open>filter_by_confidence\<close> and \<^verbatim>\<open>remove_duplicates\<close> only.
\<close>

inductive reachable :: "JsonWriter \<Rightarrow> bool" where
  init: "reachable (JsonWriter_init path)"
| add: "reachable s \<Longrightarrow> reachable (add s ts box txt conf)"
| filter_by_confidence: "reachable s \<Longrightarrow> reachable (filter_by_confidence s c)"
| remove_duplicates: "reachable s \<Longrightarrow> reachable (remove_duplicates ratio s tt st)"

subsection \<open>The grouped transcript: \<^verbatim>\<open>_format_mmss\<close> and \<^verbatim>\<open>export_grouped_text\<close>\<close>

fun digits :: "nat \<Rightarrow> string" where
  "digits n =
     (if n < 10 then [char_of (48 + n)] else digits (n div 10) @ [char_of (48 + n mod 10)])"

declare digits.simps [simp del]

definition format_d :: "nat \<Rightarrow> int \<Rightarrow> string" where
  \<comment> \<open>the format specifications \<^verbatim>\<open>02d\<close> and \<^verbatim>\<open>03d\<close>: zeros fill up to the width, after the sign\<close>
  "format_d w n =
     (if n < 0
      then CHR ''-'' # replicate (w - 1 - length (digits (nat (- n)))) CHR ''0'' @ digits (nat (- n))
      else replicate (w - length (digits (nat n))) CHR ''0'' @ digits (nat n))"

definition format_mmss :: "real option \<Rightarrow> bool \<Rightarrow> string" where
  "format_mmss seconds show_ms =
     (case seconds of
        None \<Rightarrow> ''[00:00]''
      | Some sec \<Rightarrow>
          let total_ms = round_half_even (sec * 1000);
              mm = (total_ms div 1000) div 60;
              ss = (total_ms div 1000) mod 60
          in if show_ms
             then ''['' @ format_d 2 mm @ '':'' @ format_d 2 ss @ ''.''
                    @ format_d 3 (total_ms mod 1000) @ '']''
             else ''['' @ format_d 2 mm @ '':'' @ format_d 2 ss @ '']'')"

fun join :: "string \<Rightarrow> string list \<Rightarrow> string" where
  \<comment> \<open>\<^verbatim>\<open>sep.join(texts)\<close>\<close>
  "join sep [] = []"
| "join sep [t] = t"
| "join sep (t # ts) = t @ sep @ join sep ts"

text \<open>
  The \<^verbatim>\<open>OrderedDict\<close> of buckets is an association list in insertion order; \<open>bucket_append\<close>
  is \<^verbatim>\<open>if ts not in buckets: buckets[ts] = []\<close> followed by \<^verbatim>\<open>buckets[ts].append(txt)\<close>.
\<close>

fun bucket_append :: "real \<Rightarrow> string \<Rightarrow> (real \<times> string list) list \<Rightarrow> (real \<times> string list) list" where
  "bucket_append ts txt [] = [(ts, [txt])]"
| "bucket_append ts txt ((k, texts) # rest) =
     (if k = ts then (k, texts @ [txt]) # rest else (k, texts) # bucket_append ts txt rest)"

definition fill_bucket :: "detection \<Rightarrow> (real \<times> string list) list \<Rightarrow> (real \<times> string list) list" where
  \<comment> \<open>the body of the loop over the sorted detections\<close>
  "fill_bucket d buckets =
     (let ts = timestamp d; txt = strip (text d)
      in if txt = [] then buckets else bucket_append ts txt buckets)"

text \<open>
  \<^verbatim>\<open>sorted(self.data, key=...)\<close> is stable, as \<^const>\<open>sort_key\<close> is. The result is the list of
  lines written to the file, each followed by a newline there; the choice of the file's
  path is left out.
\<close>

definition export_grouped_text :: "JsonWriter \<Rightarrow> string \<Rightarrow> bool \<Rightarrow> string list" where
  "export_grouped_text self sep show_ms =
     (let buckets = fold fill_bucket (sort_key timestamp (data self)) []
      in map (\<lambda>(ts, texts). format_mmss (Some ts) show_ms @ '' - '' @ join sep texts) buckets)"

text \<open>The transcript in the words of the specification.\<close>

definition spec_stamp :: "real \<Rightarrow> string" where
  \<comment> \<open>\<^verbatim>\<open>[MM:SS]\<close> of the timestamp floored to whole seconds\<close>
  "spec_stamp ts = ''['' @ format_d 2 (\<lfloor>ts\<rfloor> div 60) @ '':'' @ format_d 2 (\<lfloor>ts\<rfloor> mod 60) @ '']''"

definition spec_bucket_texts :: "detection list \<Rightarrow> real \<Rightarrow> string list" where
  \<comment> \<open>the non-empty trimmed texts stored at one timestamp, in insertion order\<close>
  "spec_bucket_texts ds ts =
     map (\<lambda>d. strip (text d)) (filter (\<lambda>d. timestamp d = ts \<and> strip (text d) \<noteq> []) ds)"

definition spec_timestamps :: "detection list \<Rightarrow> real set" where
  \<comment> \<open>the distinct timestamps among the detections with non-empty trimmed text\<close>
  "spec_timestamps ds = timestamp ` {d \<in> set ds. strip (text d) \<noteq> []}"


section \<open>The frame sampler: \<^verbatim>\<open>io/extractor.py\<close>, class \<^verbatim>\<open>FrameExtractor\<close>\<close>

datatype error = FileNotFoundError | AttributeError | ValueError

text \<open>
  A video is the list of its decodable frames, each with the position in milliseconds that
  the capture reports once the frame is read. The file system is the function \<open>opens\<close>:
  the video a path opens to, or nothing when \<^verbatim>\<open>isOpened()\<close> is false. The field \<open>cap\<close>
  holds the frames the open capture has yet to read, or nothing after \<^verbatim>\<open>_cleanup\<close>. The
  attributes \<^verbatim>\<open>fps\<close>, \<^verbatim>\<open>frame_count\<close> and \<^verbatim>\<open>duration\<close> only feed the printed banner and are
  left out.
\<close>

record 'f FrameExtractor =
  video_path :: string
  step :: int
  cap :: "('f \<times> real) list option"

definition init_video ::
  "(string \<Rightarrow> ('f \<times> real) list option) \<Rightarrow> 'f FrameExtractor \<Rightarrow> error + 'f FrameExtractor" where
  "init_video opens self =
     (case opens (video_path self) of
        None \<Rightarrow> Inl FileNotFoundError
      | Some video \<Rightarrow> Inr (self\<lparr>cap := Some video\<rparr>))"

definition FrameExtractor_init ::
  "(string \<Rightarrow> ('f \<times> real) list option) \<Rightarrow> string \<Rightarrow> int \<Rightarrow> error + 'f FrameExtractor" where
  "FrameExtractor_init opens path stride =
     init_video opens \<lparr>video_path = path, step = max 1 stride, cap = None\<rparr>"

fun read_loop :: "int \<Rightarrow> int \<Rightarrow> ('f \<times> real) list \<Rightarrow> (int \<times> 'f \<times> real) list" where
  \<comment> \<open>the \<^verbatim>\<open>while True\<close> loop; the empty list is \<^verbatim>\<open>ret\<close> being false\<close>
  "read_loop stride frame_idx [] = []"
| "read_loop stride frame_idx ((frame, timestamp_ms) # rest) =
     (if frame_idx mod stride = 0 then [(frame_idx, frame, timestamp_ms / 1000)] else [])
       @ read_loop stride (frame_idx + 1) rest"

text \<open>
  \<open>iter\<close> is \<^verbatim>\<open>__iter__\<close> run until the generator is exhausted: the samples it yielded and
  the extractor afterwards, \<^verbatim>\<open>_cleanup\<close> having run in the \<^verbatim>\<open>finally\<close> block.
\<close>

definition iter ::
  "(string \<Rightarrow> ('f \<times> real) list option) \<Rightarrow> 'f FrameExtractor
     \<Rightarrow> error + ((int \<times> 'f \<times> real) list \<times> 'f FrameExtractor)" where
  "iter opens self =
     (case (if cap self = None then init_video opens self else Inr self) of
        Inl e \<Rightarrow> Inl e
      | Inr self' \<Rightarrow>
          (case cap self' of
             None \<Rightarrow> Inl AttributeError
           | Some video \<Rightarrow> Inr (read_loop (step self') 0 video, self'\<lparr>cap := None\<rparr>)))"


section \<open>The recognition gate: \<^verbatim>\<open>ocr/paddle.py\<close>, \<^verbatim>\<open>PaddleOCRWrapper.recognize\<close>\<close>

text \<open>
  A page is what \<^verbatim>\<open>predict\<close> returns for it: polygons, texts and scores, an absent key being
  the empty list. The generator is modelled as \<^verbatim>\<open>list(ocr.recognize(frame))\<close>, the way the
  pipeline consumes it: the detections yielded, or the exception raised on the way
  (\<^verbatim>\<open>min\<close> of an empty polygon).
\<close>

record page =
  dt_polys :: "(real \<times> real) list list"
  rec_texts :: "string list"
  rec_scores :: "real list"

fun recognize_items ::
  "((real \<times> real) list \<times> string \<times> real) list
     \<Rightarrow> error + ((real \<times> real \<times> real \<times> real) \<times> string \<times> real) list" where
  "recognize_items [] = Inr []"
| "recognize_items ((poly, txt, score) # rest) =
     (if txt = [] \<or> score < 30 / 100 then recognize_items rest
      else if poly = [] then Inl ValueError
      else
        (case recognize_items rest of
           Inl e \<Rightarrow> Inl e
         | Inr out \<Rightarrow>
             let xs = map fst poly; ys = map snd poly
             in Inr (((Min (set xs), Min (set ys), Max (set xs), Max (set ys)), strip txt, score)
                       # out)))"

fun recognize_pages ::
  "page list \<Rightarrow> error + ((real \<times> real \<times> real \<times> real) \<times> string \<times> real) list" where
  "recognize_pages [] = Inr []"
| "recognize_pages (p # rest) =
     (case recognize_items (zip (dt_polys p) (zip (rec_texts p) (rec_scores p))) of
        Inl e \<Rightarrow> Inl e
      | Inr out \<Rightarrow>
          (case recognize_pages rest of Inl e \<Rightarrow> Inl e | Inr out' \<Rightarrow> Inr (out @ out')))"

definition recognize ::
  "page list option \<Rightarrow> error + ((real \<times> real \<times> real \<times> real) \<times> string \<times> real) list" where
  \<comment> \<open>the argument is the outcome of \<^verbatim>\<open>predict\<close>; nothing when the engine is missing or
      \<^verbatim>\<open>predict\<close> raised, and then no detection is yielded\<close>
  "recognize predicted = (case predicted of None \<Rightarrow> Inr [] | Some pages \<Rightarrow> recognize_pages pages)"

section \<open>Properties of the store\<close>

subsection \<open>Confidence filter\<close>

text \<open>
  C9. After \<^verbatim>\<open>filter_by_confidence(c)\<close> every remaining detection has confidence at least
  \<open>c\<close>; the number of detections removed is the number whose confidence was strictly
  below \<open>c\<close> before the call; the detections that remain are exactly the others, unchanged
  and in their old order.
\<close>

theorem filter_by_confidence_spec:
  "(\<forall>d \<in> set (data (filter_by_confidence s c)). c \<le> confidence d) \<and>
   int (length (data s)) - int (length (data (filter_by_confidence s c)))
     = int (length (filter (\<lambda>d. confidence d < c) (data s))) \<and>
   data (filter_by_confidence s c) = filter (\<lambda>d. \<not> confidence d < c) (data s)"
proof -
  let ?kept = "filter (\<lambda>d. c \<le> confidence d) (data s)"
  have d: "data (filter_by_confidence s c) = ?kept"
    by (simp add: filter_by_confidence_def Let_def)
  have same: "?kept = filter (\<lambda>d. \<not> confidence d < c) (data s)"
    by (simp add: not_less)
  have "length (data s) = length ?kept + length (filter (\<lambda>d. \<not> c \<le> confidence d) (data s))"
    by (rule sum_length_filter_compl [symmetric])
  then have cnt: "int (length (data s)) - int (length ?kept)
      = int (length (filter (\<lambda>d. confidence d < c) (data s)))"
    by (simp add: not_le)
  show ?thesis
    unfolding d using cnt same by simp
qed

theorem filter_by_confidence_spec_witness:
  "map text (data (filter_by_confidence
           (add (add (JsonWriter_init ''out.json'') 1 (0, 0, 10, 10) ''hello'' (2 / 10))
                2 (0, 0, 10, 10) ''world'' (9 / 10)) (1 / 2))) = [''world''] \<and>
   list_all (\<lambda>d. 1 / 2 \<le> confidence d) (data (filter_by_confidence
           (add (add (JsonWriter_init ''out.json'') 1 (0, 0, 10, 10) ''hello'' (2 / 10))
                2 (0, 0, 10, 10) ''world'' (9 / 10)) (1 / 2))) \<and>
   int (length (data
           (add (add (JsonWriter_init ''out.json'') 1 (0, 0, 10, 10) ''hello'' (2 / 10))
                2 (0, 0, 10, 10) ''world'' (9 / 10))))
     - int (length (data (filter_by_confidence
           (add (add (JsonWriter_init ''out.json'') 1 (0, 0, 10, 10) ''hello'' (2 / 10))
                2 (0, 0, 10, 10) ''world'' (9 / 10)) (1 / 2)))) = 1"
proof -
  let ?s = "add (add (JsonWriter_init ''out.json'') 1 (0, 0, 10, 10) ''hello'' (2 / 10))
                2 (0, 0, 10, 10) ''world'' (9 / 10)"
  have kept: "map text (data (filter_by_confidence ?s (1 / 2))) = [''world'']"
    by (simp add: filter_by_confidence_def add_def JsonWriter_init_def py_round_def
        round_half_even_def strip_def isspace_def Let_def)
  have below: "int (length (filter (\<lambda>d. confidence d < 1 / 2) (data ?s))) = 1"
    by (simp add: add_def JsonWriter_init_def py_round_def round_half_even_def Let_def)
  note spec = filter_by_confidence_spec [of ?s "1 / 2"]
  have all: "list_all (\<lambda>d. 1 / 2 \<le> confidence d) (data (filter_by_confidence ?s (1 / 2)))"
    using spec [THEN conjunct1] by (simp only: list_all_iff)
  have removed: "int (length (data ?s)) - int (length (data (filter_by_confidence ?s (1 / 2)))) = 1"
    using spec [THEN conjunct2, THEN conjunct1] below by (rule trans)
  from kept all removed show ?thesis
    by (intro conjI)
qed

subsection \<open>What \<^verbatim>\<open>add\<close> appends\<close>

lemma data_add:
  "data (add s ts box txt conf) = data s @ [last (data (add s ts box txt conf))]"
  by (cases box) (simp add: add_def Let_def)

lemma last_add_fields:
  "detection_id (last (data (add s ts box txt conf))) = length (data s) + 1"
  "text (last (data (add s ts box txt conf))) = strip txt"
  "text_length (last (data (add s ts box txt conf))) = length (strip txt)"
  "timestamp (last (data (add s ts box txt conf))) = py_round ts 3"
  "confidence (last (data (add s ts box txt conf))) = py_round conf 4"
  by (cases box; simp add: add_def Let_def)+

lemma total_detections_add:
  "total_detections (add s ts box txt conf) = total_detections s + 1"
  by (cases box) (simp add: add_def Let_def)

lemma length_data_add: "length (data (add s ts box txt conf)) = length (data s) + 1"
  by (cases box) (simp add: add_def Let_def)

text \<open>
  C2 (as stated, refuted). A text that trims to the empty string is not rejected:
  \<^verbatim>\<open>add\<close> has no guard and appends a detection whose text is empty.
\<close>

theorem add_blank_text_not_noop:
  "strip ''  '' = [] \<and>
   length (data (JsonWriter_init ''out.json'')) = 0 \<and>
   length (data (add (JsonWriter_init ''out.json'') 0 (0, 0, 0, 0) ''  '' (9 / 10))) = 1 \<and>
   map text (data (add (JsonWriter_init ''out.json'') 0 (0, 0, 0, 0) ''  '' (9 / 10))) = [[]] \<and>
   total_detections (add (JsonWriter_init ''out.json'') 0 (0, 0, 0, 0) ''  '' (9 / 10)) = 1"
  by (simp add: add_def JsonWriter_init_def strip_def isspace_def)

text \<open>
  C2 (amended). For every timestamp, region, confidence and text, also a text that trims
  to the empty string, \<^verbatim>\<open>add\<close> appends exactly one detection after the old contents; its
  text is the trimmed text and the detection count grows by one.
\<close>

theorem add_always_appends:
  "butlast (data (add s ts box txt conf)) = data s \<and>
   length (data (add s ts box txt conf)) = length (data s) + 1 \<and>
   text (last (data (add s ts box txt conf))) = strip txt \<and>
   total_detections (add s ts box txt conf) = total_detections s + 1"
proof -
  have "butlast (data (add s ts box txt conf)) = data s"
    by (subst data_add) simp
  then show ?thesis
    by (simp add: length_data_add last_add_fields total_detections_add)
qed

subsection \<open>Detection identifiers\<close>

text \<open>
  C1 (as stated, refuted). The identifier is the current length of the list plus one, so
  after a removal the next \<^verbatim>\<open>add\<close> hands out an identifier that is already in use: below,
  the second and the third call to \<^verbatim>\<open>add\<close> both assign 2.
\<close>

theorem detection_id_reused_after_filter:
  "map detection_id
     (data (add (add (JsonWriter_init ''out.json'') 1 (0, 0, 10, 10) ''hello'' (2 / 10))
              2 (0, 0, 10, 10) ''world'' (9 / 10))) = [1, 2] \<and>
   map detection_id
     (data (add (filter_by_confidence
                   (add (add (JsonWriter_init ''out.json'') 1 (0, 0, 10, 10) ''hello'' (2 / 10))
                      2 (0, 0, 10, 10) ''world'' (9 / 10)) (1 / 2))
              3 (0, 0, 10, 10) ''again'' (8 / 10))) = [2, 2]"
  by (simp add: filter_by_confidence_def add_def JsonWriter_init_def py_round_def
      round_half_even_def Let_def)

text \<open>
  C1 (amended). Every call to \<^verbatim>\<open>add\<close> assigns the number of detections currently held
  plus one. Hence over any run of calls to \<^verbatim>\<open>add\<close> with no removal in between, the
  identifiers handed out are consecutive and strictly increasing, and the detections
  already held keep theirs.
\<close>

theorem detection_id_consecutive_adds:
  "detection_id (last (data (add s ts box txt conf))) = length (data s) + 1 \<and>
   take (length (data s))
     (data (foldl (\<lambda>w (ts, box, txt, conf). add w ts box txt conf) s calls)) = data s \<and>
   map detection_id (drop (length (data s))
     (data (foldl (\<lambda>w (ts, box, txt, conf). add w ts box txt conf) s calls)))
     = [length (data s) + 1 ..< length (data s) + 1 + length calls]"
proof -
  let ?run = "foldl (\<lambda>w (ts, box, txt, conf). add w ts box txt conf)"
  have run: "length (data (?run s calls)) = length (data s) + length calls \<and>
      take (length (data s)) (data (?run s calls)) = data s \<and>
      map detection_id (drop (length (data s)) (data (?run s calls)))
        = [length (data s) + 1 ..< length (data s) + 1 + length calls]"
  proof (induction calls rule: rev_induct)
    case Nil
    show ?case by simp
  next
    case (snoc c calls)
    obtain t b x cf where c: "c = (t, b, x, cf)"
      by (cases c) auto
    let ?w = "?run s calls"
    have step: "data (?run s (calls @ [c])) = data ?w @ [last (data (add ?w t b x cf))]"
      using data_add [of ?w t b x cf] by (simp add: c)
    show ?case
      unfolding step using snoc.IH
      by (simp add: last_add_fields)
  qed
  show ?thesis
    using run by (simp add: last_add_fields)
qed

subsection \<open>The deduplication pass\<close>

lemma scan_existing_no_match:
  "\<forall>e \<in> set ex. \<not> duplicate_of ratio tt st cur e \<Longrightarrow>
   scan_existing ratio tt st cur ex fd = (False, fd)"
  by (induction ex) (auto simp: duplicate_of_def)

lemma scan_existing_first_match:
  "\<forall>x \<in> set pre. \<not> duplicate_of ratio tt st cur x \<Longrightarrow> duplicate_of ratio tt st cur e \<Longrightarrow>
   scan_existing ratio tt st cur (pre @ e # post) fd =
     (True, if confidence e < confidence cur then remove1 e fd @ [cur] else fd)"
  by (induction pre) (auto simp: duplicate_of_def)

lemma dedup_step_no_match:
  "\<forall>e \<in> set fd. \<not> duplicate_of ratio tt st cur e \<Longrightarrow> dedup_step ratio tt st cur fd = fd @ [cur]"
  by (simp add: dedup_step_def scan_existing_no_match)

lemma remove1_first_match:
  assumes "\<forall>x \<in> set pre. \<not> duplicate_of ratio tt st cur x" and "duplicate_of ratio tt st cur e"
  shows "remove1 e (pre @ e # post) = pre @ post"
proof -
  have "e \<notin> set pre"
    using assms by blast
  then show ?thesis
    by (simp add: remove1_append)
qed

lemma dedup_step_cases:
  obtains (new) "\<forall>e \<in> set fd. \<not> duplicate_of ratio tt st cur e"
      "dedup_step ratio tt st cur fd = fd @ [cur]"
  | (dup) pre e post where "fd = pre @ e # post"
      "\<forall>x \<in> set pre. \<not> duplicate_of ratio tt st cur x" "duplicate_of ratio tt st cur e"
      "dedup_step ratio tt st cur fd =
         (if confidence e < confidence cur then pre @ post @ [cur] else fd)"
proof (cases "\<exists>e \<in> set fd. duplicate_of ratio tt st cur e")
  case False
  then show ?thesis
    using new dedup_step_no_match [of fd ratio tt st cur] by blast
next
  case True
  then obtain pre e post where s: "fd = pre @ e # post" "duplicate_of ratio tt st cur e"
      "\<forall>x \<in> set pre. \<not> duplicate_of ratio tt st cur x"
    using split_list_first_prop [of fd "duplicate_of ratio tt st cur"] by blast
  have "dedup_step ratio tt st cur fd =
      (if confidence e < confidence cur then pre @ post @ [cur] else fd)"
    unfolding s(1)
    by (simp add: dedup_step_def scan_existing_first_match [OF s(3) s(2)]
        remove1_first_match [OF s(3) s(2)])
  with dup [OF s(1) s(3) s(2)] show ?thesis .
qed

lemma dedup_step_length: "length (dedup_step ratio tt st cur fd) \<le> length fd + 1"
  by (rule dedup_step_cases [where fd = fd and ratio = ratio and tt = tt and st = st and cur = cur])
    auto

lemma dedup_step_set: "set (dedup_step ratio tt st cur fd) \<subseteq> insert cur (set fd)"
  by (rule dedup_step_cases [where fd = fd and ratio = ratio and tt = tt and st = st and cur = cur])
    auto

lemma dedup_loop_length: "length (dedup_loop ratio tt st xs fd) \<le> length fd + length xs"
proof (induction xs arbitrary: fd)
  case Nil
  show ?case by simp
next
  case (Cons x xs)
  have "length (dedup_loop ratio tt st xs (dedup_step ratio tt st x fd))
      \<le> length (dedup_step ratio tt st x fd) + length xs"
    by (rule Cons.IH)
  also have "\<dots> \<le> length fd + 1 + length xs"
    using dedup_step_length [of ratio tt st x fd] by simp
  finally show ?case by simp
qed

lemma dedup_loop_set: "set (dedup_loop ratio tt st xs fd) \<subseteq> set fd \<union> set xs"
proof (induction xs arbitrary: fd)
  case Nil
  show ?case by simp
next
  case (Cons x xs)
  from Cons.IH [of "dedup_step ratio tt st x fd"] dedup_step_set [of ratio tt st x fd]
  show ?case by auto
qed

lemma data_remove_duplicates:
  "data (remove_duplicates ratio s tt st) =
     (if length (data s) \<le> 1 then data s else dedup_loop ratio tt st (data s) [])"
  by (simp add: remove_duplicates_def Let_def)

lemma dedup_loop_append:
  "dedup_loop ratio tt st (xs @ ys) fd = dedup_loop ratio tt st ys (dedup_loop ratio tt st xs fd)"
  by (induction xs arbitrary: fd) simp_all

text \<open>
  C5. When the first accepted entry that duplicates the candidate is \<open>e\<close> (no entry before
  it does), the scan stops there, whatever follows: if the candidate's confidence is
  strictly higher it takes the place of \<open>e\<close> in the accepted list (\<open>e\<close> is removed, the
  candidate is appended), otherwise, also on equal confidence, the accepted list stays
  as it is and the candidate is dropped. This is what \<^verbatim>\<open>remove_duplicates\<close> does with every
  candidate of the store in insertion order: if \<open>seen\<close> are the detections inserted before
  the candidate \<open>cur\<close> and \<open>rest\<close> those after it, and the pass over \<open>seen\<close> has accepted
  \<open>pre @ e # post\<close>, then the pass over \<open>seen\<close> and \<open>cur\<close> has accepted the list just
  described, and the result of the call is the pass over \<open>rest\<close> continued from that list.
\<close>

theorem dedup_first_match_keeps_higher_confidence:
  assumes "\<forall>x \<in> set pre. \<not> duplicate_of ratio tt st cur x"
    and "duplicate_of ratio tt st cur e"
  shows "dedup_step ratio tt st cur (pre @ e # post) =
       (if confidence e < confidence cur then pre @ post @ [cur] else pre @ e # post) \<and>
     (data s = seen @ cur # rest \<longrightarrow> dedup_loop ratio tt st seen [] = pre @ e # post \<longrightarrow>
        dedup_loop ratio tt st (seen @ [cur]) [] =
          (if confidence e < confidence cur then pre @ post @ [cur] else pre @ e # post) \<and>
        data (remove_duplicates ratio s tt st) =
          dedup_loop ratio tt st rest
            (if confidence e < confidence cur then pre @ post @ [cur] else pre @ e # post))"
proof -
  let ?next = "if confidence e < confidence cur then pre @ post @ [cur] else pre @ e # post"
  have scan: "scan_existing ratio tt st cur (pre @ e # post) (pre @ e # post) =
      (True, if confidence e < confidence cur
             then remove1 e (pre @ e # post) @ [cur] else pre @ e # post)"
    using assms by (rule scan_existing_first_match)
  have "remove1 e (pre @ e # post) = pre @ post"
    using assms by (rule remove1_first_match)
  with scan have step: "dedup_step ratio tt st cur (pre @ e # post) = ?next"
    by (simp add: dedup_step_def)
  have pass: "dedup_loop ratio tt st (seen @ [cur]) [] = ?next
      \<and> data (remove_duplicates ratio s tt st) = dedup_loop ratio tt st rest ?next"
    if d: "data s = seen @ cur # rest" and acc: "dedup_loop ratio tt st seen [] = pre @ e # post"
  proof -
    from acc have "seen \<noteq> []"
      by auto
    with d have long: "\<not> length (data s) \<le> 1"
      by (cases seen) simp_all
    have one: "dedup_loop ratio tt st (seen @ [cur]) [] = ?next"
      using acc step by (simp add: dedup_loop_append)
    have "dedup_loop ratio tt st (data s) [] = dedup_loop ratio tt st rest ?next"
      unfolding d using acc step by (simp add: dedup_loop_append)
    with long one show ?thesis
      by (simp add: data_remove_duplicates)
  qed
  from step pass show ?thesis
    by blast
qed

theorem dedup_first_match_keeps_higher_confidence_witness:
  "\<not> duplicate_of SequenceMatcher_ratio 1 (7 / 10)
       \<lparr>timestamp = 1, bbox = \<lparr>x1 = 0, y1 = 0, x2 = 10, y2 = 10, width = 10, height = 10\<rparr>,
        text = ''Hallo'', confidence = 9 / 10, text_length = 5, detection_id = 3\<rparr>
       \<lparr>timestamp = 5, bbox = \<lparr>x1 = 0, y1 = 0, x2 = 10, y2 = 10, width = 10, height = 10\<rparr>,
        text = ''world'', confidence = 6 / 10, text_length = 5, detection_id = 1\<rparr> \<and>
   duplicate_of SequenceMatcher_ratio 1 (7 / 10)
       \<lparr>timestamp = 1, bbox = \<lparr>x1 = 0, y1 = 0, x2 = 10, y2 = 10, width = 10, height = 10\<rparr>,
        text = ''Hallo'', confidence = 9 / 10, text_length = 5, detection_id = 3\<rparr>
       \<lparr>timestamp = 0, bbox = \<lparr>x1 = 0, y1 = 0, x2 = 10, y2 = 10, width = 10, height = 10\<rparr>,
        text = ''hello'', confidence = 5 / 10, text_length = 5, detection_id = 2\<rparr> \<and>
   dedup_loop SequenceMatcher_ratio 1 (7 / 10)
       [\<lparr>timestamp = 5, bbox = \<lparr>x1 = 0, y1 = 0, x2 = 10, y2 = 10, width = 10, height = 10\<rparr>,
        text = ''world'', confidence = 6 / 10, text_length = 5, detection_id = 1\<rparr>,
        \<lparr>timestamp = 0, bbox = \<lparr>x1 = 0, y1 = 0, x2 = 10, y2 = 10, width = 10, height = 10\<rparr>,
        text = ''hello'', confidence = 5 / 10, text_length = 5, detection_id = 2\<rparr>] []
     = [\<lparr>timestamp = 5, bbox = \<lparr>x1 = 0, y1 = 0, x2 = 10, y2 = 10, width = 10, height = 10\<rparr>,
        text = ''world'', confidence = 6 / 10, text_length = 5, detection_id = 1\<rparr>,
        \<lparr>timestamp = 0, bbox = \<lparr>x1 = 0, y1 = 0, x2 = 10, y2 = 10, width = 10, height = 10\<rparr>,
        text = ''hello'', confidence = 5 / 10, text_length = 5, detection_id = 2\<rparr>] \<and>
   dedup_step SequenceMatcher_ratio 1 (7 / 10)
       \<lparr>timestamp = 1, bbox = \<lparr>x1 = 0, y1 = 0, x2 = 10, y2 = 10, width = 10, height = 10\<rparr>,
        text = ''Hallo'', confidence = 9 / 10, text_length = 5, detection_id = 3\<rparr>
       [\<lparr>timestamp = 5, bbox = \<lparr>x1 = 0, y1 = 0, x2 = 10, y2 = 10, width = 10, height = 10\<rparr>,
        text = ''world'', confidence = 6 / 10, text_length = 5, detection_id = 1\<rparr>,
        \<lparr>timestamp = 0, bbox = \<lparr>x1 = 0, y1 = 0, x2 = 10, y2 = 10, width = 10, height = 10\<rparr>,
        text = ''hello'', confidence = 5 / 10, text_length = 5, detection_id = 2\<rparr>]
     = [\<lparr>timestamp = 5, bbox = \<lparr>x1 = 0, y1 = 0, x2 = 10, y2 = 10, width = 10, height = 10\<rparr>,
        text = ''world'', confidence = 6 / 10, text_length = 5, detection_id = 1\<rparr>,
        \<lparr>timestamp = 1, bbox = \<lparr>x1 = 0, y1 = 0, x2 = 10, y2 = 10, width = 10, height = 10\<rparr>,
        text = ''Hallo'', confidence = 9 / 10, text_length = 5, detection_id = 3\<rparr>] \<and>
   dedup_loop SequenceMatcher_ratio 1 (7 / 10)
       [\<lparr>timestamp = 5, bbox = \<lparr>x1 = 0, y1 = 0, x2 = 10, y2 = 10, width = 10, height = 10\<rparr>,
        text = ''world'', confidence = 6 / 10, text_length = 5, detection_id = 1\<rparr>,
        \<lparr>timestamp = 0, bbox = \<lparr>x1 = 0, y1 = 0, x2 = 10, y2 = 10, width = 10, height = 10\<rparr>,
        text = ''hello'', confidence = 5 / 10, text_length = 5, detection_id = 2\<rparr>,
        \<lparr>timestamp = 1, bbox = \<lparr>x1 = 0, y1 = 0, x2 = 10, y2 = 10, width = 10, height = 10\<rparr>,
        text = ''Hallo'', confidence = 9 / 10, text_length = 5, detection_id = 3\<rparr>] []
     = [\<lparr>timestamp = 5, bbox = \<lparr>x1 = 0, y1 = 0, x2 = 10, y2 = 10, width = 10, height = 10\<rparr>,
        text = ''world'', confidence = 6 / 10, text_length = 5, detection_id = 1\<rparr>,
        \<lparr>timestamp = 1, bbox = \<lparr>x1 = 0, y1 = 0, x2 = 10, y2 = 10, width = 10, height = 10\<rparr>,
        text = ''Hallo'', confidence = 9 / 10, text_length = 5, detection_id = 3\<rparr>] \<and>
   data (remove_duplicates SequenceMatcher_ratio
       (add (add (add (add (JsonWriter_init ''out.json'')
               5 (0, 0, 10, 10) ''world'' (6 / 10))
               0 (0, 0, 10, 10) ''hello'' (5 / 10))
               1 (0, 0, 10, 10) ''Hallo'' (9 / 10))
               (12 / 10) (0, 0, 10, 10) ''hallo'' (4 / 10)) 1 (7 / 10))
     = [\<lparr>timestamp = 5, bbox = \<lparr>x1 = 0, y1 = 0, x2 = 10, y2 = 10, width = 10, height = 10\<rparr>,
        text = ''world'', confidence = 6 / 10, text_length = 5, detection_id = 1\<rparr>,
        \<lparr>timestamp = 1, bbox = \<lparr>x1 = 0, y1 = 0, x2 = 10, y2 = 10, width = 10, height = 10\<rparr>,
        text = ''Hallo'', confidence = 9 / 10, text_length = 5, detection_id = 3\<rparr>]"
proof -
  let ?Y = "\<lparr>timestamp = 5, bbox = \<lparr>x1 = 0, y1 = 0, x2 = 10, y2 = 10, width = 10, height = 10\<rparr>,
        text = ''world'', confidence = 6 / 10, text_length = 5, detection_id = 1\<rparr>"
  let ?X = "\<lparr>timestamp = 0, bbox = \<lparr>x1 = 0, y1 = 0, x2 = 10, y2 = 10, width = 10, height = 10\<rparr>,
        text = ''hello'', confidence = 5 / 10, text_length = 5, detection_id = 2\<rparr>"
  let ?Z = "\<lparr>timestamp = 1, bbox = \<lparr>x1 = 0, y1 = 0, x2 = 10, y2 = 10, width = 10, height = 10\<rparr>,
        text = ''Hallo'', confidence = 9 / 10, text_length = 5, detection_id = 3\<rparr>"
  let ?W = "\<lparr>timestamp = 12 / 10, bbox = \<lparr>x1 = 0, y1 = 0, x2 = 10, y2 = 10, width = 10, height = 10\<rparr>,
        text = ''hallo'', confidence = 4 / 10, text_length = 5, detection_id = 4\<rparr>"
  let ?s = "add (add (add (add (JsonWriter_init ''out.json'')
               5 (0, 0, 10, 10) ''world'' (6 / 10))
               0 (0, 0, 10, 10) ''hello'' (5 / 10))
               1 (0, 0, 10, 10) ''Hallo'' (9 / 10))
               (12 / 10) (0, 0, 10, 10) ''hallo'' (4 / 10)"
  have h1: "\<forall>x \<in> set [?Y]. \<not> duplicate_of SequenceMatcher_ratio 1 (7 / 10) ?Z x"
    by code_simp
  have h2: "duplicate_of SequenceMatcher_ratio 1 (7 / 10) ?Z ?X"
    by code_simp
  have d: "data ?s = [?Y, ?X] @ ?Z # [?W]"
    by code_simp
  have acc: "dedup_loop SequenceMatcher_ratio 1 (7 / 10) [?Y, ?X] [] = [?Y] @ ?X # []"
    by code_simp
  have last: "dedup_loop SequenceMatcher_ratio 1 (7 / 10) [?W] [?Y, ?Z] = [?Y, ?Z]"
    by code_simp
  note inst = dedup_first_match_keeps_higher_confidence
      [OF h1 h2, where post = "[]" and s = ?s and seen = "[?Y, ?X]" and rest = "[?W]"]
  have step: "dedup_step SequenceMatcher_ratio 1 (7 / 10) ?Z [?Y, ?X] = [?Y, ?Z]"
    using inst [THEN conjunct1] by simp
  have pass: "dedup_loop SequenceMatcher_ratio 1 (7 / 10) [?Y, ?X, ?Z] [] = [?Y, ?Z]"
    using inst [THEN conjunct2, rule_format, OF d acc, THEN conjunct1] by simp
  have "data (remove_duplicates SequenceMatcher_ratio ?s 1 (7 / 10))
      = dedup_loop SequenceMatcher_ratio 1 (7 / 10) [?W] [?Y, ?Z]"
    using inst [THEN conjunct2, rule_format, OF d acc, THEN conjunct2] by simp
  then have whole: "data (remove_duplicates SequenceMatcher_ratio ?s 1 (7 / 10)) = [?Y, ?Z]"
    by (simp only: last)
  have acc': "dedup_loop SequenceMatcher_ratio 1 (7 / 10) [?Y, ?X] [] = [?Y, ?X]"
    using acc by simp
  from h1 h2 acc' step pass whole show ?thesis
    by simp
qed

subsection \<open>The recorded count\<close>

text \<open>
  C10. The recorded total equals the number of detections held: in a freshly constructed
  store, and after \<^verbatim>\<open>add\<close>, \<^verbatim>\<open>filter_by_confidence\<close> and \<^verbatim>\<open>remove_duplicates\<close> whenever it
  held before the call.
\<close>

theorem total_detections_invariant:
  "count_ok (JsonWriter_init path) \<and>
   (count_ok s \<longrightarrow>
      count_ok (add s ts box txt conf) \<and>
      count_ok (filter_by_confidence s c) \<and>
      count_ok (remove_duplicates ratio s tt st))"
proof -
  have init: "count_ok (JsonWriter_init path)"
    by (simp add: count_ok_def JsonWriter_init_def)
  have a: "count_ok (add s ts box txt conf)" if "count_ok s"
    using that by (simp add: count_ok_def total_detections_add length_data_add)
  have f: "count_ok (filter_by_confidence s c)" if "count_ok s"
  proof (cases "length (filter (\<lambda>d. c \<le> confidence d) (data s)) < length (data s)")
    case True
    then show ?thesis
      by (simp add: count_ok_def filter_by_confidence_def Let_def)
  next
    case False
    then have "length (filter (\<lambda>d. c \<le> confidence d) (data s)) = length (data s)"
      using length_filter_le [of "\<lambda>d. c \<le> confidence d" "data s"] by linarith
    with that show ?thesis
      by (simp add: count_ok_def filter_by_confidence_def Let_def)
  qed
  have r: "count_ok (remove_duplicates ratio s tt st)" if "count_ok s"
  proof (cases "length (data s) \<le> 1")
    case True
    with that show ?thesis by (simp add: remove_duplicates_def)
  next
    case False
    let ?fd = "dedup_loop ratio tt st (data s) []"
    show ?thesis
    proof (cases "0 < int (length (data s)) - int (length ?fd)")
      case True
      with False show ?thesis
        by (simp add: count_ok_def remove_duplicates_def Let_def)
    next
      case neg: False
      have "length ?fd \<le> length (data s)"
        using dedup_loop_length [of ratio tt st "data s" "[]"] by simp
      with neg have "length ?fd = length (data s)" by simp
      with False neg that show ?thesis
        by (simp add: count_ok_def remove_duplicates_def Let_def)
    qed
  qed
  from init a f r show ?thesis by blast
qed

theorem total_detections_invariant_witness:
  "count_ok (add (add (add (JsonWriter_init ''out.json'')
            0 (0, 0, 10, 10) ''hello'' (5 / 10))
            2 (0, 0, 10, 10) ''hello'' (6 / 10))
            1 (0, 0, 10, 10) ''hello'' (9 / 10)) \<and>
   count_ok (add (add (add (add (JsonWriter_init ''out.json'')
            0 (0, 0, 10, 10) ''hello'' (5 / 10))
            2 (0, 0, 10, 10) ''hello'' (6 / 10))
            1 (0, 0, 10, 10) ''hello'' (9 / 10))
        3 (0, 0, 10, 10) ''again'' (8 / 10)) \<and>
   count_ok (filter_by_confidence (add (add (add (JsonWriter_init ''out.json'')
            0 (0, 0, 10, 10) ''hello'' (5 / 10))
            2 (0, 0, 10, 10) ''hello'' (6 / 10))
            1 (0, 0, 10, 10) ''hello'' (9 / 10)) (55 / 100)) \<and>
   count_ok (remove_duplicates SequenceMatcher_ratio (add (add (add (JsonWriter_init ''out.json'')
            0 (0, 0, 10, 10) ''hello'' (5 / 10))
            2 (0, 0, 10, 10) ''hello'' (6 / 10))
            1 (0, 0, 10, 10) ''hello'' (9 / 10)) 1 (9 / 10)) \<and>
   total_detections (remove_duplicates SequenceMatcher_ratio (add (add (add (JsonWriter_init ''out.json'')
            0 (0, 0, 10, 10) ''hello'' (5 / 10))
            2 (0, 0, 10, 10) ''hello'' (6 / 10))
            1 (0, 0, 10, 10) ''hello'' (9 / 10)) 1 (9 / 10)) = 2"
proof -
  let ?s = "add (add (add (JsonWriter_init ''out.json'')
            0 (0, 0, 10, 10) ''hello'' (5 / 10))
            2 (0, 0, 10, 10) ''hello'' (6 / 10))
            1 (0, 0, 10, 10) ''hello'' (9 / 10)"
  have ok: "count_ok ?s"
    by code_simp
  have two: "total_detections (remove_duplicates SequenceMatcher_ratio ?s 1 (9 / 10)) = 2"
    by code_simp
  from total_detections_invariant
         [of "''out.json''" ?s 3 "(0, 0, 10, 10)" "''again''" "8 / 10" "55 / 100"
             SequenceMatcher_ratio 1 "9 / 10"] ok two
  show ?thesis
    by blast
qed

subsection \<open>Running the deduplication twice\<close>


lemma no_later_duplicate_Nil: "no_later_duplicate ratio tt st []"
  by (simp add: no_later_duplicate_def)

lemma no_later_duplicate_snoc:
  "no_later_duplicate ratio tt st (ds @ [x]) \<longleftrightarrow>
     no_later_duplicate ratio tt st ds \<and> (\<forall>e \<in> set ds. \<not> duplicate_of ratio tt st x e)"
proof
  assume l: "no_later_duplicate ratio tt st (ds @ [x])"
  have "\<forall>e \<in> set pre. \<not> duplicate_of ratio tt st y e" if "ds = pre @ y # post" for pre y post
  proof -
    from that have "ds @ [x] = pre @ y # (post @ [x])" by simp
    with l show ?thesis unfolding no_later_duplicate_def by blast
  qed
  moreover have "\<forall>e \<in> set ds. \<not> duplicate_of ratio tt st x e"
  proof -
    have "ds @ [x] = ds @ x # []" by simp
    with l show ?thesis unfolding no_later_duplicate_def by blast
  qed
  ultimately show "no_later_duplicate ratio tt st ds \<and> (\<forall>e \<in> set ds. \<not> duplicate_of ratio tt st x e)"
    unfolding no_later_duplicate_def by blast
next
  assume r: "no_later_duplicate ratio tt st ds \<and> (\<forall>e \<in> set ds. \<not> duplicate_of ratio tt st x e)"
  show "no_later_duplicate ratio tt st (ds @ [x])"
    unfolding no_later_duplicate_def
  proof (intro allI impI)
    fix pre y post
    assume eq: "ds @ [x] = pre @ y # post"
    show "\<forall>e \<in> set pre. \<not> duplicate_of ratio tt st y e"
    proof (cases post rule: rev_cases)
      case Nil
      with eq have "pre = ds" "y = x" by simp_all
      with r show ?thesis by simp
    next
      case (snoc post' z)
      with eq have "ds = pre @ y # post'" by simp
      with r show ?thesis unfolding no_later_duplicate_def by blast
    qed
  qed
qed

lemma dedup_loop_no_later_duplicate:
  assumes h: "\<forall>pre x post. ds = pre @ x # post \<longrightarrow>
      (\<forall>e \<in> set pre. duplicate_of ratio tt st x e \<longrightarrow> confidence x \<le> confidence e)"
  shows "ds = pre @ xs \<Longrightarrow> set fd \<subseteq> set pre \<Longrightarrow> no_later_duplicate ratio tt st fd \<Longrightarrow>
    no_later_duplicate ratio tt st (dedup_loop ratio tt st xs fd)"
proof (induction xs arbitrary: pre fd)
  case Nil
  then show ?case by simp
next
  case (Cons x xs)
  from h Cons.prems(1)
  have le: "\<forall>e \<in> set pre. duplicate_of ratio tt st x e \<longrightarrow> confidence x \<le> confidence e"
    by blast
  have step: "set (dedup_step ratio tt st x fd) \<subseteq> set (pre @ [x]) \<and>
      no_later_duplicate ratio tt st (dedup_step ratio tt st x fd)"
  proof (rule dedup_step_cases [where fd = fd and ratio = ratio and tt = tt and st = st and cur = x])
    assume "\<forall>e \<in> set fd. \<not> duplicate_of ratio tt st x e"
      and "dedup_step ratio tt st x fd = fd @ [x]"
    with Cons.prems(2,3) show ?thesis
      by (auto simp: no_later_duplicate_snoc)
  next
    fix p e q
    assume fd: "fd = p @ e # q" and d: "duplicate_of ratio tt st x e"
      and s: "dedup_step ratio tt st x fd =
        (if confidence e < confidence x then p @ q @ [x] else fd)"
    from fd Cons.prems(2) have "e \<in> set pre" by auto
    with le d have "\<not> confidence e < confidence x" by fastforce
    with s have "dedup_step ratio tt st x fd = fd" by simp
    with Cons.prems(2,3) show ?thesis by auto
  qed
  have "ds = (pre @ [x]) @ xs"
    using Cons.prems(1) by simp
  from Cons.IH [OF this] step show ?case
    by simp
qed

lemma dedup_loop_fixed:
  "no_later_duplicate ratio tt st (acc @ xs) \<Longrightarrow> dedup_loop ratio tt st xs acc = acc @ xs"
proof (induction xs arbitrary: acc)
  case Nil
  show ?case by simp
next
  case (Cons x xs)
  from Cons.prems have "\<forall>e \<in> set acc. \<not> duplicate_of ratio tt st x e"
    unfolding no_later_duplicate_def by blast
  then have "dedup_step ratio tt st x acc = acc @ [x]"
    by (rule dedup_step_no_match)
  moreover have "no_later_duplicate ratio tt st ((acc @ [x]) @ xs)"
    using Cons.prems by simp
  ultimately show ?case
    using Cons.IH [of "acc @ [x]"] by simp
qed







text \<open>
  A condition on the store before the first call that suffices: no detection has a
  strictly higher confidence than a detection inserted before it of which it is a
  duplicate. Then the first call never replaces an accepted entry.
\<close>

lemma remove_duplicates_idempotent_without_replacement:
  assumes "\<forall>j < length (data s). \<forall>i < j.
      duplicate_of ratio tt st (data s ! j) (data s ! i) \<longrightarrow>
      confidence (data s ! j) \<le> confidence (data s ! i)"
  shows "remove_duplicates ratio (remove_duplicates ratio s tt st) tt st
     = remove_duplicates ratio s tt st"
proof (cases "length (data s) \<le> 1")
  case True
  then show ?thesis by (simp add: remove_duplicates_def)
next
  case False
  let ?fd = "dedup_loop ratio tt st (data s) []"
  let ?s' = "remove_duplicates ratio s tt st"
  have h: "\<forall>pre x post. data s = pre @ x # post \<longrightarrow>
      (\<forall>e \<in> set pre. duplicate_of ratio tt st x e \<longrightarrow> confidence x \<le> confidence e)"
  proof (intro allI impI ballI)
    fix pre x post e
    assume eq: "data s = pre @ x # post" and e: "e \<in> set pre"
      and d: "duplicate_of ratio tt st x e"
    from e obtain i where i: "i < length pre" "pre ! i = e"
      by (auto simp: in_set_conv_nth)
    have "data s ! length pre = x" "data s ! i = e" "length pre < length (data s)"
      using eq i by (simp_all add: nth_append)
    with assms i(1) d show "confidence x \<le> confidence e"
      by blast
  qed
  have "no_later_duplicate ratio tt st ?fd"
    by (rule dedup_loop_no_later_duplicate [OF h, of "[]"])
      (simp_all add: no_later_duplicate_Nil)
  then have fixed: "dedup_loop ratio tt st ?fd [] = ?fd"
    using dedup_loop_fixed [of ratio tt st "[]" ?fd] by simp
  have d: "data ?s' = ?fd"
    using False by (simp add: data_remove_duplicates)
  show ?thesis
  proof (cases "length ?fd \<le> 1")
    case True
    with d show ?thesis
      by (simp add: remove_duplicates_def [of ratio ?s'])
  next
    case False
    with d fixed show ?thesis
      by (simp add: remove_duplicates_def [of ratio ?s'] Let_def)
  qed
qed

section \<open>Properties of the frame sampler\<close>

lemma ceil_div_cases:
  fixes n s :: int
  assumes "1 \<le> s"
  shows "(n + s - 1) div s = (if n mod s = 0 then n div s else n div s + 1)"
proof (cases "n mod s = 0")
  case True
  have "n + s - 1 = s * (n div s) + (s - 1)"
    using True by (simp add: algebra_simps) (metis add.right_neutral mult_div_mod_eq)
  from int_div_pos_eq [OF this] assms True show ?thesis
    by simp
next
  case False
  have r: "0 \<le> n mod s" "n mod s < s"
    using assms by simp_all
  have "n + s - 1 = s * (n div s + 1) + (n mod s - 1)"
    by (simp add: algebra_simps)
  from int_div_pos_eq [OF this] r False show ?thesis
    by simp
qed

lemma ceiling_divide_int:
  fixes n s :: int
  assumes "1 \<le> s"
  shows "\<lceil>real_of_int n / real_of_int s\<rceil> = (n + s - 1) div s"
proof -
  let ?q = "(n + s - 1) div s" and ?r = "(n + s - 1) mod s"
  have r: "0 \<le> ?r" "?r < s"
    using assms by simp_all
  have "n + s - 1 = s * ?q + ?r"
    by simp
  then have "- n = s * (- ?q) + (s - 1 - ?r)"
    by (simp add: algebra_simps)
  from int_div_pos_eq [OF this] r have "- n div s = - ?q"
    by simp
  then show ?thesis
    by (simp add: ceiling_divide_eq_div)
qed

lemma read_loop_indices:
  "map fst (read_loop s i frames)
     = filter (\<lambda>j. j mod s = 0) (map (\<lambda>k. i + int k) [0..<length frames])"
proof (induction frames arbitrary: i)
  case Nil
  show ?case by simp
next
  case (Cons fr frames)
  obtain f ms where fr: "fr = (f, ms)"
    by (cases fr) auto
  have "[0..<length (fr # frames)] = 0 # map Suc [0..<length frames]"
    by (simp add: upt_conv_Cons map_Suc_upt del: upt_Suc)
  then have "map (\<lambda>k. i + int k) [0..<length (fr # frames)]
      = i # map (\<lambda>k. (i + 1) + int k) [0..<length frames]"
    by (simp add: comp_def add.assoc)
  then show ?case
    using Cons.IH [of "i + 1"] by (simp add: fr)
qed

lemma multiples_below:
  fixes s :: int
  assumes "1 \<le> s"
  shows "filter (\<lambda>j. j mod s = 0) (map int [0..<n])
     = map (\<lambda>k. int k * s) [0..<nat ((int n + s - 1) div s)]"
proof (induction n)
  case 0
  have "(s - 1) div s = 0"
    using assms by simp
  then show ?case by simp
next
  case (Suc n)
  have nn: "0 \<le> int n div s"
    using assms by (simp add: pos_imp_zdiv_nonneg_iff)
  show ?case
  proof (cases "int n mod s = 0")
    case True
    then have c: "(int n + s - 1) div s = int n div s" "(int (Suc n) + s - 1) div s = int n div s + 1"
      using ceil_div_cases [OF assms, of "int n"] ceil_div_cases [OF assms, of "int n + 1"] assms
      by (simp_all add: algebra_simps)
    have "int (nat (int n div s)) * s = int n"
      using True nn by (simp add: dvd_div_mult_self mod_eq_0_iff_dvd)
    then show ?thesis
      using Suc.IH True c nn by (simp add: nat_add_distrib)
  next
    case False
    then have c: "(int (Suc n) + s - 1) div s = (int n + s - 1) div s"
      using ceil_div_cases [OF assms, of "int n"] assms
      by (simp add: algebra_simps)
    show ?thesis
      using Suc.IH False c by simp
  qed
qed

text \<open>
  C6. For a stride \<open>s \<ge> 1\<close> and a source that opens and yields exactly \<open>N\<close> frames,
  the extractor is constructed with step \<open>s\<close> and its iteration yields \<open>\<lceil>N / s\<rceil>\<close> samples,
  whose frame indices are \<open>0, s, 2s, \<dots>\<close> in increasing order.
\<close>

theorem frame_sampler_yields_every_sth_frame:
  assumes "1 \<le> s" and "opens path = Some frames"
  shows "\<exists>ex samples ex'.
     FrameExtractor_init opens path s = Inr ex \<and>
     iter opens ex = Inr (samples, ex') \<and>
     length samples = nat \<lceil>real (length frames) / real_of_int s\<rceil> \<and>
     map fst samples = map (\<lambda>k. int k * s) [0..<nat \<lceil>real (length frames) / real_of_int s\<rceil>]"
proof -
  let ?ex = "\<lparr>video_path = path, step = s, cap = Some frames\<rparr>"
  have init: "FrameExtractor_init opens path s = Inr ?ex"
    using assms by (simp add: FrameExtractor_init_def init_video_def max_def)
  have it: "iter opens ?ex = Inr (read_loop s 0 frames, ?ex\<lparr>cap := None\<rparr>)"
    by (simp add: iter_def)
  have ceil: "\<lceil>real (length frames) / real_of_int s\<rceil> = (int (length frames) + s - 1) div s"
    using ceiling_divide_int [OF assms(1), of "int (length frames)"] by simp
  have "map fst (read_loop s 0 frames)
      = filter (\<lambda>j. j mod s = 0) (map int [0..<length frames])"
    by (simp add: read_loop_indices)
  then have idx: "map fst (read_loop s 0 frames)
      = map (\<lambda>k. int k * s) [0..<nat \<lceil>real (length frames) / real_of_int s\<rceil>]"
    by (simp add: multiples_below [OF assms(1)] ceil)
  have "length (map fst (read_loop s 0 frames)) = nat \<lceil>real (length frames) / real_of_int s\<rceil>"
    unfolding idx by simp
  then have len: "length (read_loop s 0 frames) = nat \<lceil>real (length frames) / real_of_int s\<rceil>"
    by simp
  from init it len idx show ?thesis
    by blast
qed

theorem frame_sampler_yields_every_sth_frame_witness:
  "map fst (fst (projr (iter [''clip.mp4'' \<mapsto> [(''f0'', 0), (''f1'', 40), (''f2'', 80), (''f3'', 120), (''f4'', 160)]]
      (projr (FrameExtractor_init
         [''clip.mp4'' \<mapsto> [(''f0'', 0), (''f1'', 40), (''f2'', 80), (''f3'', 120), (''f4'', 160)]]
         ''clip.mp4'' 2))))) = [0, 2, 4] \<and>
   nat \<lceil>real (length [(''f0'', 0 :: real), (''f1'', 40), (''f2'', 80), (''f3'', 120), (''f4'', 160)])
          / real_of_int 2\<rceil> = 3"
proof -
  let ?frames = "[(''f0'', 0 :: real), (''f1'', 40), (''f2'', 80), (''f3'', 120), (''f4'', 160)]"
  let ?opens = "[''clip.mp4'' \<mapsto> ?frames]"
  have o: "?opens ''clip.mp4'' = Some ?frames"
    by simp
  have s: "(1 :: int) \<le> 2"
    by simp
  from frame_sampler_yields_every_sth_frame
         [where s = 2 and opens = ?opens and path = "''clip.mp4''" and frames = ?frames, OF s o]
  obtain ex samples ex' where r:
    "FrameExtractor_init ?opens ''clip.mp4'' 2 = Inr ex"
    "iter ?opens ex = Inr (samples, ex')"
    "length samples = nat \<lceil>real (length ?frames) / real_of_int 2\<rceil>"
    "map fst samples = map (\<lambda>k. int k * 2) [0..<nat \<lceil>real (length ?frames) / real_of_int 2\<rceil>]"
    by blast
  have three: "nat \<lceil>real (length ?frames) / real_of_int 2\<rceil> = 3"
    by simp
  have "map (\<lambda>k. int k * 2) [0..<3] = [0, 2, 4]"
    by (simp add: upt_rec)
  with r three show ?thesis
    by simp
qed

text \<open>
  C8 (as stated, refuted). After the sequence has terminated \<^verbatim>\<open>_cleanup\<close> sets \<^verbatim>\<open>self.cap\<close> to
  \<^verbatim>\<open>None\<close>, and \<^verbatim>\<open>__iter__\<close> opens the video again when it finds no capture: a second
  iteration of the same extractor yields the same samples once more.
\<close>

theorem frame_sampler_restarts:
  "iter [''clip.mp4'' \<mapsto> [(''f0'', 0), (''f1'', 40), (''f2'', 80)]]
      \<lparr>video_path = ''clip.mp4'', step = 2, cap = Some [(''f0'', 0), (''f1'', 40), (''f2'', 80)]\<rparr>
     = Inr ([(0, ''f0'', 0), (2, ''f2'', 8 / 100)],
            \<lparr>video_path = ''clip.mp4'', step = 2, cap = None\<rparr>) \<and>
   iter [''clip.mp4'' \<mapsto> [(''f0'', 0), (''f1'', 40), (''f2'', 80)]]
      \<lparr>video_path = ''clip.mp4'', step = 2, cap = None\<rparr>
     = Inr ([(0, ''f0'', 0), (2, ''f2'', 8 / 100)],
            \<lparr>video_path = ''clip.mp4'', step = 2, cap = None\<rparr>)"
  by (simp add: iter_def init_video_def)

text \<open>
  C8 (amended). One pass over the capture ends with the source handle released. Iterating
  the same extractor again is not empty: it opens the source again and yields the whole
  sequence of samples from frame 0 once more, or fails with \<^verbatim>\<open>FileNotFoundError\<close> when the
  source no longer opens.
\<close>

theorem frame_sampler_second_pass_reopens:
  assumes "iter opens ex = Inr (samples, ex')"
  shows "cap ex' = None \<and>
     iter opens ex' =
       (case opens (video_path ex) of
          None \<Rightarrow> Inl FileNotFoundError
        | Some video \<Rightarrow> Inr (read_loop (step ex) 0 video, ex'))"
proof -
  from assms obtain ex1 video where
    e1: "(if cap ex = None then init_video opens ex else Inr ex) = Inr ex1"
    and c1: "cap ex1 = Some video"
    and e': "ex' = ex1\<lparr>cap := None\<rparr>"
    by (auto simp: iter_def split: sum.splits option.splits)
  from e1 have same: "video_path ex1 = video_path ex" "step ex1 = step ex"
    by (auto simp: init_video_def split: if_splits option.splits)
  have none: "cap ex' = None"
    by (simp add: e')
  have "iter opens ex' =
       (case opens (video_path ex) of
          None \<Rightarrow> Inl FileNotFoundError
        | Some video \<Rightarrow> Inr (read_loop (step ex) 0 video, ex'))"
    using same by (simp add: iter_def init_video_def e' split: option.splits)
  with none show ?thesis
    by simp
qed

theorem frame_sampler_second_pass_reopens_witness:
  "iter [''clip.mp4'' \<mapsto> [(''f0'', 0), (''f1'', 40), (''f2'', 80)]]
      \<lparr>video_path = ''clip.mp4'', step = 2, cap = Some [(''f1'', 40), (''f2'', 80)]\<rparr>
     = Inr ([(0, ''f1'', 4 / 100)], \<lparr>video_path = ''clip.mp4'', step = 2, cap = None\<rparr>) \<and>
   iter [''clip.mp4'' \<mapsto> [(''f0'', 0), (''f1'', 40), (''f2'', 80)]]
      \<lparr>video_path = ''clip.mp4'', step = 2, cap = None\<rparr>
     = Inr (read_loop 2 0 [(''f0'', 0), (''f1'', 40), (''f2'', 80)],
            \<lparr>video_path = ''clip.mp4'', step = 2, cap = None\<rparr>)"
proof -
  let ?opens = "[''clip.mp4'' \<mapsto> [(''f0'', 0 :: real), (''f1'', 40), (''f2'', 80)]]"
  let ?ex = "\<lparr>video_path = ''clip.mp4'', step = 2, cap = Some [(''f1'', 40 :: real), (''f2'', 80)]\<rparr>"
  let ?ex' = "\<lparr>video_path = ''clip.mp4'', step = 2, cap = None :: (string \<times> real) list option\<rparr>"
  have first: "iter ?opens ?ex = Inr ([(0, ''f1'', 4 / 100)], ?ex')"
    by (simp add: iter_def)
  from frame_sampler_second_pass_reopens [OF first]
  have "iter ?opens ?ex' = Inr (read_loop 2 0 [(''f0'', 0), (''f1'', 40), (''f2'', 80)], ?ex')"
    by simp
  with first show ?thesis
    by (intro conjI)
qed

section \<open>Properties of the recognition gate\<close>

lemma recognize_items_gate:
  "recognize_items items = Inr out \<Longrightarrow>
   \<forall>(box, txt, score) \<in> set out. 30 / 100 \<le> score \<and> (\<exists>raw. raw \<noteq> [] \<and> txt = strip raw)"
proof (induction items arbitrary: out)
  case Nil
  then show ?case by simp
next
  case (Cons item items)
  obtain poly raw score where item: "item = (poly, raw, score)"
    by (cases item) auto
  show ?case
  proof (cases "raw = [] \<or> score < 30 / 100")
    case True
    with Cons item show ?thesis by simp
  next
    case False
    with Cons.prems item obtain out' where
      "recognize_items items = Inr out'"
      "out = ((Min (set (map fst poly)), Min (set (map snd poly)),
               Max (set (map fst poly)), Max (set (map snd poly))), strip raw, score) # out'"
      by (auto simp: Let_def split: if_splits sum.splits)
    with Cons.IH [of out'] False show ?thesis
      by auto
  qed
qed

text \<open>
  C4 (the code departs from the claim). The gate tests the text before it is trimmed, so
  a whitespace-only text with confidence 0.9 passes and is yielded with the empty text,
  which \<^verbatim>\<open>add\<close> then stores.
\<close>

theorem recognize_yields_blank_text:
  "recognize (Some [\<lparr>dt_polys = [[(0, 0), (10, 0), (10, 5), (0, 5)]],
                     rec_texts = [''  ''], rec_scores = [9 / 10]\<rparr>])
     = Inr [((0, 0, 10, 5), [], 9 / 10)] \<and>
   map (\<lambda>d. (text d, confidence d))
     (data (add (JsonWriter_init ''out.json'') 1 (0, 0, 10, 5) [] (9 / 10))) = [([], 9 / 10)]"
  by (simp add: recognize_def strip_def isspace_def add_def JsonWriter_init_def py_round_def
      round_half_even_def)

section \<open>Properties of the grouped transcript\<close>

subsection \<open>Stored timestamps are whole milliseconds\<close>

lemma round_half_even_of_int: "round_half_even (of_int n) = n"
  by (simp add: round_half_even_def)

lemma py_round_millis: "\<exists>n :: int. py_round x 3 = of_int n / 1000"
  by (auto simp: py_round_def)

lemma reachable_timestamps:
  "reachable s \<Longrightarrow> \<forall>d \<in> set (data s). \<exists>n :: int. timestamp d = of_int n / 1000"
proof (induction rule: reachable.induct)
  case (init path)
  show ?case by (simp add: JsonWriter_init_def)
next
  case (add s t b x cf)
  have "set (data (Spec2Isabelle.add s t b x cf))
      = insert (last (data (Spec2Isabelle.add s t b x cf))) (set (data s))"
    by (subst data_add) simp
  with add.IH py_round_millis [of t] show ?case
    by (auto simp: last_add_fields)
next
  case (filter_by_confidence s c)
  then show ?case
    by (simp add: Spec2Isabelle.filter_by_confidence_def Let_def)
next
  case (remove_duplicates s ratio tt st)
  have "set (data (Spec2Isabelle.remove_duplicates ratio s tt st)) \<subseteq> set (data s)"
    using dedup_loop_set [of ratio tt st "data s" "[]"] by (simp add: data_remove_duplicates)
  with remove_duplicates.IH show ?case
    by blast
qed

lemma format_mmss_millis:
  assumes "ts = of_int n / 1000"
  shows "format_mmss (Some ts) False = spec_stamp ts"
proof -
  have "ts * 1000 = of_int n"
    using assms by simp
  then have r: "round_half_even (ts * 1000) = n"
    by (simp add: round_half_even_of_int)
  have "\<lfloor>ts\<rfloor> = n div 1000"
    unfolding assms using floor_divide_of_int_eq [of n 1000, where ?'a = real] by simp
  with r show ?thesis
    by (simp add: format_mmss_def spec_stamp_def Let_def)
qed

subsection \<open>The buckets\<close>

lemma map_of_bucket_append:
  "map_of (bucket_append ts txt bs) =
     (map_of bs)(ts \<mapsto> (case map_of bs ts of None \<Rightarrow> [txt] | Some v \<Rightarrow> v @ [txt]))"
  by (induction bs) (auto simp: fun_eq_iff)

lemma keys_bucket_append:
  "map fst (bucket_append ts txt bs) =
     (if ts \<in> set (map fst bs) then map fst bs else map fst bs @ [ts])"
  by (induction bs) (force simp: image_iff)+

lemma assoc_list_by_keys:
  "distinct (map fst bs) \<Longrightarrow> bs = map (\<lambda>k. (k, the (map_of bs k))) (map fst bs)"
proof (induction bs)
  case Nil
  show ?case by simp
next
  case (Cons b bs)
  obtain k v where b: "b = (k, v)"
    by (cases b) auto
  from Cons.prems b have "k \<notin> fst ` set bs" "distinct (map fst bs)"
    by simp_all
  then have "map (\<lambda>k'. (k', the (map_of (b # bs) k'))) (map fst bs)
      = map (\<lambda>k'. (k', the (map_of bs k'))) (map fst bs)"
    by (auto simp: b)
  with Cons.IH \<open>distinct (map fst bs)\<close> show ?case
    by (simp add: b)
qed

lemma spec_timestamps_snoc:
  "spec_timestamps (xs @ [d]) =
     (if strip (text d) = [] then spec_timestamps xs else insert (timestamp d) (spec_timestamps xs))"
  by (auto simp: spec_timestamps_def)

lemma spec_bucket_texts_snoc:
  "spec_bucket_texts (xs @ [d]) k =
     spec_bucket_texts xs k
       @ (if timestamp d = k \<and> strip (text d) \<noteq> [] then [strip (text d)] else [])"
  by (simp add: spec_bucket_texts_def)

lemma spec_bucket_texts_empty:
  "k \<notin> spec_timestamps xs \<Longrightarrow> spec_bucket_texts xs k = []"
  by (auto simp: spec_timestamps_def spec_bucket_texts_def filter_empty_conv)

lemma spec_timestamps_subset: "spec_timestamps xs \<subseteq> timestamp ` set xs"
  by (auto simp: spec_timestamps_def)

lemma buckets_invariant:
  "sorted (map timestamp xs) \<Longrightarrow>
   sorted (map fst (fold fill_bucket xs [])) \<and>
   distinct (map fst (fold fill_bucket xs [])) \<and>
   set (map fst (fold fill_bucket xs [])) = spec_timestamps xs \<and>
   (\<forall>k \<in> spec_timestamps xs.
      map_of (fold fill_bucket xs []) k = Some (spec_bucket_texts xs k))"
proof (induction xs rule: rev_induct)
  case Nil
  show ?case by (simp add: spec_timestamps_def)
next
  case (snoc d xs)
  let ?bs = "fold fill_bucket xs []"
  let ?ts = "timestamp d" and ?txt = "strip (text d)"
  from snoc.prems have sx: "sorted (map timestamp xs)" and le: "\<forall>x \<in> set xs. timestamp x \<le> ?ts"
    by (auto simp: sorted_append)
  note ih = snoc.IH [OF sx]
  show ?case
  proof (cases "?txt = []")
    case True
    then have "fold fill_bucket (xs @ [d]) [] = ?bs"
      by (simp add: fill_bucket_def)
    with ih True show ?thesis
      by (simp add: spec_timestamps_snoc spec_bucket_texts_snoc)
  next
    case False
    then have f: "fold fill_bucket (xs @ [d]) [] = bucket_append ?ts ?txt ?bs"
      by (simp add: fill_bucket_def Let_def)
    have keys_le: "\<forall>k \<in> set (map fst ?bs). k \<le> ?ts"
      using ih le spec_timestamps_subset [of xs] by auto
    have k1: "sorted (map fst (bucket_append ?ts ?txt ?bs))"
      using ih keys_le by (simp add: keys_bucket_append sorted_append)
    have k2: "distinct (map fst (bucket_append ?ts ?txt ?bs))"
      using ih by (simp add: keys_bucket_append)
    have k3: "set (map fst (bucket_append ?ts ?txt ?bs)) = spec_timestamps (xs @ [d])"
      using ih False by (auto simp: keys_bucket_append spec_timestamps_snoc)
    have k4: "map_of (bucket_append ?ts ?txt ?bs) k = Some (spec_bucket_texts (xs @ [d]) k)"
      if k: "k \<in> spec_timestamps (xs @ [d])" for k
    proof (cases "k = ?ts")
      case kt: True
      show ?thesis
      proof (cases "?ts \<in> spec_timestamps xs")
        case True
        with ih have "map_of ?bs ?ts = Some (spec_bucket_texts xs ?ts)"
          by blast
        with kt False show ?thesis
          by (simp add: map_of_bucket_append spec_bucket_texts_snoc)
      next
        case nin: False
        with ih have "?ts \<notin> fst ` set ?bs"
          by simp
        then have "map_of ?bs ?ts = None"
          by (simp add: map_of_eq_None_iff)
        with kt False nin show ?thesis
          by (simp add: map_of_bucket_append spec_bucket_texts_snoc spec_bucket_texts_empty)
      qed
    next
      case nk: False
      with k False have "k \<in> spec_timestamps xs"
        by (simp add: spec_timestamps_snoc)
      with ih have "map_of ?bs k = Some (spec_bucket_texts xs k)"
        by blast
      with nk show ?thesis
        by (simp add: map_of_bucket_append spec_bucket_texts_snoc)
    qed
    from k1 k2 k3 k4 show ?thesis
      unfolding f by blast
  qed
qed

lemma finite_spec_timestamps: "finite (spec_timestamps xs)"
  by (simp add: spec_timestamps_def)

lemma buckets_sorted_input:
  assumes "sorted (map timestamp xs)"
  shows "fold fill_bucket xs [] =
     map (\<lambda>k. (k, spec_bucket_texts xs k)) (sorted_list_of_set (spec_timestamps xs))"
proof -
  let ?bs = "fold fill_bucket xs []"
  note inv = buckets_invariant [OF assms]
  have keys: "map fst ?bs = sorted_list_of_set (spec_timestamps xs)"
    by (rule sorted_distinct_set_unique) (use inv finite_spec_timestamps [of xs] in simp_all)
  have "?bs = map (\<lambda>k. (k, the (map_of ?bs k))) (map fst ?bs)"
    using inv by (intro assoc_list_by_keys) simp
  also have "\<dots> = map (\<lambda>k. (k, spec_bucket_texts xs k)) (map fst ?bs)"
    using inv by (intro map_cong) auto
  finally show ?thesis
    unfolding keys .
qed

lemma spec_bucket_texts_sort_key:
  "spec_bucket_texts (sort_key timestamp ds) k = spec_bucket_texts ds k"
proof -
  let ?P = "\<lambda>d. strip (text d) \<noteq> []"
  have "filter (\<lambda>d. timestamp d = k \<and> ?P d) (sort_key timestamp ds)
      = filter ?P (filter (\<lambda>d. timestamp d = k) (sort_key timestamp ds))"
    by simp
  also have "\<dots> = filter ?P (filter (\<lambda>d. timestamp d = k) ds)"
    by (simp only: sort_key_stable)
  also have "\<dots> = filter (\<lambda>d. timestamp d = k \<and> ?P d) ds"
    by simp
  finally show ?thesis
    by (simp only: spec_bucket_texts_def)
qed

lemma spec_timestamps_sort_key: "spec_timestamps (sort_key timestamp ds) = spec_timestamps ds"
  by (simp add: spec_timestamps_def)

lemma export_grouped_text_buckets:
  "export_grouped_text self sep show_ms =
     map (\<lambda>k. format_mmss (Some k) show_ms @ '' - '' @ join sep (spec_bucket_texts (data self) k))
       (sorted_list_of_set (spec_timestamps (data self)))"
proof -
  have "sorted (map timestamp (sort_key timestamp (data self)))"
    by (rule sorted_sort_key)
  from buckets_sorted_input [OF this] show ?thesis
    by (simp add: export_grouped_text_def Let_def comp_def
        spec_bucket_texts_sort_key spec_timestamps_sort_key)
qed

text \<open>
  C7. For a store built through its operations, the grouped transcript has one line for
  each distinct timestamp among the detections with non-empty trimmed text, in ascending
  order of timestamp; the line is the \<^verbatim>\<open>[MM:SS]\<close> stamp of the timestamp floored to whole
  seconds, then \<^verbatim>\<open>" - "\<close>, then the trimmed texts stored at that timestamp, in insertion
  order, joined with the separator. The number of lines is the number of those
  timestamps.
\<close>

theorem grouped_transcript_lines:
  assumes "reachable self"
  shows "export_grouped_text self sep False =
       map (\<lambda>ts. spec_stamp ts @ '' - '' @ join sep (spec_bucket_texts (data self) ts))
         (sorted_list_of_set (spec_timestamps (data self))) \<and>
     length (export_grouped_text self sep False) = card (spec_timestamps (data self))"
proof -
  have stamp: "format_mmss (Some k) False = spec_stamp k" if "k \<in> spec_timestamps (data self)" for k
  proof -
    from that obtain d where "d \<in> set (data self)" "timestamp d = k"
      by (auto simp: spec_timestamps_def)
    with reachable_timestamps [OF assms] obtain n :: int where "k = of_int n / 1000"
      by blast
    then show ?thesis
      by (rule format_mmss_millis)
  qed
  have lines: "export_grouped_text self sep False =
       map (\<lambda>ts. spec_stamp ts @ '' - '' @ join sep (spec_bucket_texts (data self) ts))
         (sorted_list_of_set (spec_timestamps (data self)))"
    unfolding export_grouped_text_buckets
    by (intro map_cong) (simp_all add: stamp finite_spec_timestamps)
  have "length (export_grouped_text self sep False) = card (spec_timestamps (data self))"
    unfolding export_grouped_text_buckets by simp
  with lines show ?thesis
    by simp
qed

theorem grouped_transcript_lines_witness:
  "reachable (add (add (add (add (add (JsonWriter_init ''out.json'')
            (10004 / 10000) (0, 0, 10, 10) ''hello'' (9 / 10))
            (752 / 10) (0, 0, 10, 10) ''end'' (8 / 10))
            (25 / 10) (0, 0, 10, 10) ''late'' (7 / 10))
            1 (0, 0, 10, 10) '' world '' (6 / 10))
            3 (0, 0, 10, 10) ''  '' (9 / 10)) \<and>
   export_grouped_text (add (add (add (add (add (JsonWriter_init ''out.json'')
            (10004 / 10000) (0, 0, 10, 10) ''hello'' (9 / 10))
            (752 / 10) (0, 0, 10, 10) ''end'' (8 / 10))
            (25 / 10) (0, 0, 10, 10) ''late'' (7 / 10))
            1 (0, 0, 10, 10) '' world '' (6 / 10))
            3 (0, 0, 10, 10) ''  '' (9 / 10)) '' | '' False
     = [''[00:01] - hello | world'', ''[00:02] - late'', ''[01:15] - end''] \<and>
   card (spec_timestamps (data (add (add (add (add (add (JsonWriter_init ''out.json'')
            (10004 / 10000) (0, 0, 10, 10) ''hello'' (9 / 10))
            (752 / 10) (0, 0, 10, 10) ''end'' (8 / 10))
            (25 / 10) (0, 0, 10, 10) ''late'' (7 / 10))
            1 (0, 0, 10, 10) '' world '' (6 / 10))
            3 (0, 0, 10, 10) ''  '' (9 / 10)))) = 3"
proof -
  let ?s = "add (add (add (add (add (JsonWriter_init ''out.json'')
            (10004 / 10000) (0, 0, 10, 10) ''hello'' (9 / 10))
            (752 / 10) (0, 0, 10, 10) ''end'' (8 / 10))
            (25 / 10) (0, 0, 10, 10) ''late'' (7 / 10))
            1 (0, 0, 10, 10) '' world '' (6 / 10))
            3 (0, 0, 10, 10) ''  '' (9 / 10)"
  have r: "reachable ?s"
    by (intro reachable.intros)
  have e: "export_grouped_text ?s '' | '' False
      = [''[00:01] - hello | world'', ''[00:02] - late'', ''[01:15] - end'']"
    by code_simp
  have "card (spec_timestamps (data ?s)) = length (export_grouped_text ?s '' | '' False)"
    by (rule grouped_transcript_lines [OF r, of "'' | ''", THEN conjunct2, symmetric])
  also have "\<dots> = 3"
    unfolding e by simp
  finally have "card (spec_timestamps (data ?s)) = 3" .
  with r e show ?thesis
    by (intro conjI)
qed


end
